theory Spec2Isabelle
  imports Complex_Main "HOL-Library.Sublist"
begin

section \<open>Python strings\<close>

text \<open>
  A Python \<open>str\<close> is a sequence of Unicode code points, and \<open>len\<close>, slicing and the
  \<open>re\<close> module all count code points. A text is therefore a list of code points;
  \<open>py\<close> turns an ASCII literal into such a list.
\<close>

type_synonym ustr = "nat list"

definition py :: "string \<Rightarrow> ustr" where
  "py s = map of_char s"

text \<open>
  \<open>str.isspace\<close>, \<open>str.strip()\<close> and the pattern \<open>\s\<close> of \<open>re\<close> (on \<open>str\<close> patterns)
  share one table of whitespace code points.
\<close>

definition is_space :: "nat \<Rightarrow> bool" where
  "is_space c \<longleftrightarrow>
     (0x09 \<le> c \<and> c \<le> 0x0D) \<or> (0x1C \<le> c \<and> c \<le> 0x20) \<or> c = 0x85 \<or> c = 0xA0 \<or>
     c = 0x1680 \<or> (0x2000 \<le> c \<and> c \<le> 0x200A) \<or> c = 0x2028 \<or> c = 0x2029 \<or>
     c = 0x202F \<or> c = 0x205F \<or> c = 0x3000"

text \<open>
  The pattern \<open>\d\<close> matches the code points of Unicode category Nd. The table is the one
  of Unicode 14.0 (CPython 3.11): first and last code point of every run.
\<close>

definition nd_ranges :: "(nat \<times> nat) list" where
  "nd_ranges =
     [(0x30, 0x39), (0x660, 0x669), (0x6F0, 0x6F9), (0x7C0, 0x7C9), (0x966, 0x96F),
      (0x9E6, 0x9EF), (0xA66, 0xA6F), (0xAE6, 0xAEF), (0xB66, 0xB6F), (0xBE6, 0xBEF),
      (0xC66, 0xC6F), (0xCE6, 0xCEF), (0xD66, 0xD6F), (0xDE6, 0xDEF), (0xE50, 0xE59),
      (0xED0, 0xED9), (0xF20, 0xF29), (0x1040, 0x1049), (0x1090, 0x1099), (0x17E0, 0x17E9),
      (0x1810, 0x1819), (0x1946, 0x194F), (0x19D0, 0x19D9), (0x1A80, 0x1A89),
      (0x1A90, 0x1A99), (0x1B50, 0x1B59), (0x1BB0, 0x1BB9), (0x1C40, 0x1C49),
      (0x1C50, 0x1C59), (0xA620, 0xA629), (0xA8D0, 0xA8D9), (0xA900, 0xA909),
      (0xA9D0, 0xA9D9), (0xA9F0, 0xA9F9), (0xAA50, 0xAA59), (0xABF0, 0xABF9),
      (0xFF10, 0xFF19), (0x104A0, 0x104A9), (0x10D30, 0x10D39), (0x11066, 0x1106F),
      (0x110F0, 0x110F9), (0x11136, 0x1113F), (0x111D0, 0x111D9), (0x112F0, 0x112F9),
      (0x11450, 0x11459), (0x114D0, 0x114D9), (0x11650, 0x11659), (0x116C0, 0x116C9),
      (0x11730, 0x11739), (0x118E0, 0x118E9), (0x11950, 0x11959), (0x11C50, 0x11C59),
      (0x11D50, 0x11D59), (0x11DA0, 0x11DA9), (0x16A60, 0x16A69), (0x16AC0, 0x16AC9),
      (0x16B50, 0x16B59), (0x1D7CE, 0x1D7FF), (0x1E140, 0x1E149), (0x1E2F0, 0x1E2F9),
      (0x1E950, 0x1E959), (0x1FBF0, 0x1FBF9)]"

definition is_digit :: "nat \<Rightarrow> bool" where
  "is_digit c = list_ex (\<lambda>(lo, hi). lo \<le> c \<and> c \<le> hi) nd_ranges"

text \<open>The character class \<open>[-\<dots>]\<close> of the marker pattern: hyphen-minus, en dash, em dash.\<close>

definition is_dash :: "nat \<Rightarrow> bool" where
  "is_dash c \<longleftrightarrow> c = 0x2D \<or> c = 0x2013 \<or> c = 0x2014"

definition strip :: "ustr \<Rightarrow> ustr" where
  "strip s = rev (dropWhile is_space (rev (dropWhile is_space s)))"

text \<open>\<open>sep in text\<close> for a non-empty \<open>sep\<close>.\<close>

fun contains :: "ustr \<Rightarrow> ustr \<Rightarrow> bool" where
  "contains sep [] = (sep = [])"
| "contains sep (c # cs) = (prefix sep (c # cs) \<or> contains sep cs)"

text \<open>
  \<open>text.split(sep)\<close> for a non-empty \<open>sep\<close>: a scan from the left that cuts at every
  occurrence of \<open>sep\<close> and resumes behind it. \<open>skip\<close> counts the characters of the
  separator still to be passed over, \<open>cur\<close> is the piece being collected.
\<close>

fun split_loop :: "ustr \<Rightarrow> nat \<Rightarrow> ustr \<Rightarrow> ustr \<Rightarrow> ustr list" where
  "split_loop sep skip cur [] = [cur]"
| "split_loop sep skip cur (c # cs) =
     (if 0 < skip then split_loop sep (skip - 1) cur cs
      else if prefix sep (c # cs) then cur # split_loop sep (length sep - 1) [] cs
      else split_loop sep 0 (cur @ [c]) cs)"

definition split :: "ustr \<Rightarrow> ustr \<Rightarrow> ustr list" where
  "split sep s = split_loop sep 0 [] s"

text \<open>\<open>sep.join(parts)\<close>.\<close>

fun join :: "ustr \<Rightarrow> ustr list \<Rightarrow> ustr" where
  "join sep [] = []"
| "join sep [p] = p"
| "join sep (p # q # ps) = p @ sep @ join sep (q # ps)"

text \<open>\<open>s.find(c)\<close> for a single character: the first index, or \<open>-1\<close>.\<close>

definition find_char :: "nat \<Rightarrow> ustr \<Rightarrow> int" where
  "find_char c s = (if c \<in> set s then int (length (takeWhile (\<lambda>x. x \<noteq> c) s)) else - 1)"


section \<open>The chunker (\<open>rag_engine/chunker.py\<close>)\<close>

text \<open>
  Every caller in the repository builds the chunker through \<open>chunk_legal_document\<close>, that
  is \<open>UzbekLegalChunker()\<close> with its default sizes; the sizes are the constants below.
\<close>

definition TARGET_CHUNK_SIZE :: nat where "TARGET_CHUNK_SIZE = 2048"
definition MAX_CHUNK_SIZE :: nat where "MAX_CHUNK_SIZE = 3200"
definition MIN_CHUNK_SIZE :: nat where "MIN_CHUNK_SIZE = 200"
definition OVERLAP_SIZE :: nat where "OVERLAP_SIZE = 400"

datatype pyval = PNone | PStr ustr

record chunk =
  "text" :: ustr
  index :: nat
  document_id :: pyval
  article :: "ustr option"
  chunk_type :: string
  metadata :: "ustr \<rightharpoonup> pyval"

subsection \<open>\<open>_clean_text\<close>\<close>

text \<open>\<open>re.sub(r'\s+', ' ', text)\<close>: every maximal run of whitespace becomes one space.\<close>

function collapse_ws :: "ustr \<Rightarrow> ustr" where
  "collapse_ws [] = []"
| "collapse_ws (c # cs) =
     (if is_space c then 0x20 # collapse_ws (dropWhile is_space cs)
      else c # collapse_ws cs)"
  by pat_completeness auto
termination
  by (relation "measure length") (auto simp: length_dropWhile_le less_Suc_eq_le)

text \<open>\<open>re.sub(r'\n{3,}', '\n\n', text)\<close>: a run of three or more newlines becomes two.\<close>

function collapse_nl :: "ustr \<Rightarrow> ustr" where
  "collapse_nl [] = []"
| "collapse_nl (c # cs) =
     (if c = 0x0A then
        (let run = c # takeWhile (\<lambda>x. x = 0x0A) cs
         in (if 3 \<le> length run then [0x0A, 0x0A] else run)
              @ collapse_nl (dropWhile (\<lambda>x. x = 0x0A) cs))
      else c # collapse_nl cs)"
  by pat_completeness auto
termination
  by (relation "measure length") (auto simp: length_dropWhile_le less_Suc_eq_le)

definition clean_text :: "ustr \<Rightarrow> ustr" where
  "clean_text t = strip (collapse_nl (collapse_ws t))"

subsection \<open>\<open>_split_by_articles\<close>\<close>

text \<open>
  The combined pattern
  \<open>(?:(\d+)\s*[-\<dots>]\s*(?:modda|Modda|MODDA)|(?:Modda|MODDA)\s+(\d+))\<close>
  tried at the head of \<open>s\<close>. Each function returns the captured number and the length
  of the match. The greedy quantifiers never have to give characters back: a digit is
  neither whitespace nor a dash, and whitespace starts neither a word nor a number, so a
  shorter run cannot make the rest of the pattern match.
\<close>

definition is_modda :: "ustr \<Rightarrow> bool" where
  "is_modda s \<longleftrightarrow> prefix (py ''modda'') s \<or> prefix (py ''Modda'') s \<or> prefix (py ''MODDA'') s"

definition match_dash_form :: "ustr \<Rightarrow> (ustr \<times> nat) option" where
  "match_dash_form s =
     (let ds = takeWhile is_digit s;
          r1 = dropWhile is_space (dropWhile is_digit s)
      in if ds = [] then None
         else (case r1 of
                 [] \<Rightarrow> None
               | d # r2 \<Rightarrow>
                   if \<not> is_dash d then None
                   else (let r3 = dropWhile is_space r2
                         in if is_modda r3 then Some (ds, length s - length r3 + 5)
                            else None)))"

definition match_word_form :: "ustr \<Rightarrow> (ustr \<times> nat) option" where
  "match_word_form s =
     (if prefix (py ''Modda'') s \<or> prefix (py ''MODDA'') s then
        (let r1 = drop 5 s;
             ws = takeWhile is_space r1;
             ds = takeWhile is_digit (dropWhile is_space r1)
         in if ws = [] \<or> ds = [] then None
            else Some (ds, 5 + length ws + length ds))
      else None)"

definition match_article :: "ustr \<Rightarrow> (ustr \<times> nat) option" where
  "match_article s =
     (case match_dash_form s of Some m \<Rightarrow> Some m | None \<Rightarrow> match_word_form s)"

text \<open>
  \<open>re.finditer(pattern, text)\<close>: the matches from left to right, none overlapping; each
  as its start position and its captured number (\<open>group(1) or group(2)\<close>). \<open>skip\<close> is
  the number of characters of the last match still to be passed, \<open>pos\<close> the position of
  the head of the rest.
\<close>

fun finditer :: "nat \<Rightarrow> nat \<Rightarrow> ustr \<Rightarrow> (nat \<times> ustr) list" where
  "finditer skip pos [] = []"
| "finditer skip pos (c # cs) =
     (if 0 < skip then finditer (skip - 1) (Suc pos) cs
      else (case match_article (c # cs) of
              Some (num, len) \<Rightarrow> (pos, num) # finditer (len - 1) (Suc pos) cs
            | None \<Rightarrow> finditer 0 (Suc pos) cs))"

text \<open>The loop over the matches: \<open>text[start:end].strip()\<close> up to the next marker.\<close>

fun articles_loop :: "ustr \<Rightarrow> (nat \<times> ustr) list \<Rightarrow> (ustr \<times> ustr) list" where
  "articles_loop t [] = []"
| "articles_loop t ((start, num) # ms) =
     (let end = (case ms of [] \<Rightarrow> length t | (nxt, _) # _ \<Rightarrow> nxt);
          article_text = strip (take (end - start) (drop start t))
      in if article_text \<noteq> [] then (num @ py ''-modda'', article_text) # articles_loop t ms
         else articles_loop t ms)"

definition split_by_articles :: "ustr \<Rightarrow> (ustr \<times> ustr) list" where
  "split_by_articles t =
     (case finditer 0 0 t of
        [] \<Rightarrow> [(py ''general'', t)]
      | (first, num) # ms \<Rightarrow>
          (let articles = articles_loop t ((first, num) # ms);
               preamble = strip (take first t)
           in if MIN_CHUNK_SIZE < first \<and> preamble \<noteq> []
              then (py ''preamble'', preamble) # articles
              else articles))"

subsection \<open>\<open>_split_by_sections\<close>\<close>

text \<open>
  The merge loop: \<open>cur\<close> is the list \<open>current\<close>, \<open>n\<close> is \<open>current_len\<close>; the result is
  what the loop and the final flush append to \<open>sections\<close>.
\<close>

definition flush :: "ustr \<Rightarrow> ustr list \<Rightarrow> ustr list" where
  "flush sep cur = (if cur \<noteq> [] then [join sep cur] else [])"

fun merge_paragraphs :: "ustr list \<Rightarrow> nat \<Rightarrow> ustr list \<Rightarrow> ustr list" where
  "merge_paragraphs cur n [] = flush [0x0A, 0x0A] cur"
| "merge_paragraphs cur n (para # ps) =
     (if n + length para \<le> TARGET_CHUNK_SIZE
      then merge_paragraphs (cur @ [para]) (n + length para) ps
      else flush [0x0A, 0x0A] cur @ merge_paragraphs [para] (length para) ps)"

definition split_by_sections :: "ustr \<Rightarrow> ustr list" where
  "split_by_sections t =
     (let paragraphs = split [0x0A, 0x0A] t
      in if 1 < length paragraphs then merge_paragraphs [] 0 paragraphs else [t])"

subsection \<open>\<open>_recursive_split\<close>\<close>

fun pack_parts :: "ustr \<Rightarrow> ustr list \<Rightarrow> nat \<Rightarrow> ustr list \<Rightarrow> ustr list" where
  "pack_parts sep cur n [] = flush sep cur"
| "pack_parts sep cur n (part # ps) =
     (if n + (length part + length sep) \<le> TARGET_CHUNK_SIZE
      then pack_parts sep (cur @ [part]) (n + (length part + length sep)) ps
      else flush sep cur @ pack_parts sep [part] (length part + length sep) ps)"

text \<open>
  The fallback \<open>[text[i:i+target] for i in range(0, len(text), target)]\<close>.
\<close>

definition hard_split :: "ustr \<Rightarrow> ustr list" where
  "hard_split t =
     map (\<lambda>k. take TARGET_CHUNK_SIZE (drop (k * TARGET_CHUNK_SIZE) t))
         [0 ..< (length t + TARGET_CHUNK_SIZE - 1) div TARGET_CHUNK_SIZE]"

definition separators :: "ustr list" where
  "separators = [[0x0A, 0x0A], [0x0A], py ''. '', py '', '', py '' '']"

fun try_separators :: "ustr \<Rightarrow> ustr list \<Rightarrow> ustr list" where
  "try_separators t [] = hard_split t"
| "try_separators t (sep # seps) =
     (if contains sep t then
        (let result = pack_parts sep [] 0 (split sep t)
         in if result \<noteq> [] then result else try_separators t seps)
      else try_separators t seps)"

definition recursive_split :: "ustr \<Rightarrow> ustr list" where
  "recursive_split t = try_separators t separators"

subsection \<open>\<open>_add_overlap\<close>\<close>

text \<open>
  The loop body for index \<open>i\<close>. The chunks are objects that the loop changes in place,
  so \<open>chunks[i-1].text\<close> is read from the list as the earlier iterations left it.
\<close>

definition overlap_of :: "ustr \<Rightarrow> ustr" where
  "overlap_of prev_text =
     (let overlap_text = drop (length prev_text - OVERLAP_SIZE) prev_text;
          space_idx = find_char 0x20 overlap_text
      in if 0 < space_idx then drop (nat space_idx + 1) overlap_text else overlap_text)"

definition overlap_step :: "nat \<Rightarrow> chunk list \<Rightarrow> chunk list" where
  "overlap_step i chunks =
     (let prev_text = text (chunks ! (i - 1))
      in if OVERLAP_SIZE < length prev_text
         then chunks[i := (chunks ! i)\<lparr>text :=
                py ''...'' @ overlap_of prev_text @ [0x0A, 0x0A] @ text (chunks ! i)\<rparr>]
         else chunks)"

definition add_overlap :: "chunk list \<Rightarrow> chunk list" where
  "add_overlap chunks =
     (if length chunks \<le> 1 then chunks
      else fold overlap_step [1 ..< length chunks] chunks)"

subsection \<open>\<open>chunk_document\<close>\<close>

definition mk_chunk ::
  "(ustr \<rightharpoonup> pyval) \<Rightarrow> pyval \<Rightarrow> ustr \<Rightarrow> string \<Rightarrow> ustr \<Rightarrow> nat \<Rightarrow> chunk" where
  "mk_chunk base doc_id article_num ty t i =
     \<lparr>text = t, index = i, document_id = doc_id, article = Some article_num,
      chunk_type = ty, metadata = base(py ''article'' \<mapsto> PStr article_num)\<rparr>"

text \<open>The three nested loops; \<open>i\<close> is \<open>chunk_index\<close>, the result what is appended to \<open>chunks\<close>.\<close>

fun sub_chunks_loop ::
  "(ustr \<rightharpoonup> pyval) \<Rightarrow> pyval \<Rightarrow> ustr \<Rightarrow> nat \<Rightarrow> ustr list \<Rightarrow> chunk list" where
  "sub_chunks_loop base doc_id num i [] = []"
| "sub_chunks_loop base doc_id num i (sub # subs) =
     mk_chunk base doc_id num ''sub_section'' sub i
       # sub_chunks_loop base doc_id num (i + 1) subs"

fun sections_loop ::
  "(ustr \<rightharpoonup> pyval) \<Rightarrow> pyval \<Rightarrow> ustr \<Rightarrow> nat \<Rightarrow> ustr list \<Rightarrow> chunk list" where
  "sections_loop base doc_id num i [] = []"
| "sections_loop base doc_id num i (section_text # secs) =
     (let new =
        (if length section_text \<le> TARGET_CHUNK_SIZE
         then [mk_chunk base doc_id num ''section'' section_text i]
         else sub_chunks_loop base doc_id num i (recursive_split section_text))
      in new @ sections_loop base doc_id num (i + length new) secs)"

fun chunks_loop ::
  "(ustr \<rightharpoonup> pyval) \<Rightarrow> pyval \<Rightarrow> nat \<Rightarrow> (ustr \<times> ustr) list \<Rightarrow> chunk list" where
  "chunks_loop base doc_id i [] = []"
| "chunks_loop base doc_id i ((article_num, article_text) # arts) =
     (let new =
        (if length article_text \<le> TARGET_CHUNK_SIZE
         then [mk_chunk base doc_id article_num ''full_article'' article_text i]
         else sections_loop base doc_id article_num i (split_by_sections article_text))
      in new @ chunks_loop base doc_id (i + length new) arts)"

text \<open>
  \<open>pre_overlap_chunks\<close> is \<open>chunk_document\<close> up to the call of \<open>_add_overlap\<close>: the list
  \<open>chunks\<close> as the loops built it.
\<close>

definition pre_overlap_chunks ::
  "ustr \<Rightarrow> pyval \<Rightarrow> pyval \<Rightarrow> (ustr \<rightharpoonup> pyval) option \<Rightarrow> chunk list" where
  "pre_overlap_chunks t doc_id title md =
     (if t = [] \<or> strip t = [] then []
      else (let base = (case md of None \<Rightarrow> Map.empty | Some m \<Rightarrow> m)
                         (py ''document_id'' \<mapsto> doc_id, py ''title'' \<mapsto> title)
            in chunks_loop base doc_id 0 (split_by_articles (clean_text t))))"

definition chunk_document ::
  "ustr \<Rightarrow> pyval \<Rightarrow> pyval \<Rightarrow> (ustr \<rightharpoonup> pyval) option \<Rightarrow> chunk list" where
  "chunk_document t doc_id title md = add_overlap (pre_overlap_chunks t doc_id title md)"

text \<open>
  The third entry of \<open>ARTICLE_PATTERNS\<close>, \<open>^(\d+)\.\s+(?=\S)\<close>: without the
  \<open>MULTILINE\<close> flag \<open>^\<close> is the start of the text, so the pattern occurs in a text
  exactly when it matches at its head.
\<close>

definition numeral_dot_marker :: "ustr \<Rightarrow> bool" where
  "numeral_dot_marker s =
     (takeWhile is_digit s \<noteq> [] \<and>
      (case dropWhile is_digit s of
         [] \<Rightarrow> False
       | d # r \<Rightarrow> d = 0x2E \<and> takeWhile is_space r \<noteq> [] \<and> dropWhile is_space r \<noteq> []))"


section \<open>The relevance score of the chat endpoint (\<open>api/routers/chat.py\<close>)\<close>

text \<open>
  Distances and scores are exact rationals here; the rounding error of binary floating
  point in \<open>1 - distance\<close> is not part of the model. \<open>round3\<close> is \<open>round(x, 3)\<close>:
  to the nearest multiple of 1/1000, a tie to the even one.
\<close>

definition round3 :: "rat \<Rightarrow> rat" where
  "round3 x =
     (let y = x * 1000; f = \<lfloor>y\<rfloor>; r = y - of_int f
      in of_int (if r < 1 / 2 then f else if 1 / 2 < r then f + 1
                 else if even f then f else f + 1) / 1000)"

definition relevance_score :: "rat \<Rightarrow> rat" where
  "relevance_score distance = max 0 (1 - distance)"

datatype chat_error = ValidationError

text \<open>
  \<open>DocumentSource(relevance_score=round(relevance_score, 3), ...)\<close>: the field is declared
  \<open>Field(..., ge=0, le=1)\<close>, so the constructor raises on a value outside the bounds (and
  the endpoint answers with status 500).
\<close>

definition source_relevance :: "rat \<Rightarrow> chat_error + rat" where
  "source_relevance distance =
     (let s = round3 (relevance_score distance)
      in if 0 \<le> s \<and> s \<le> 1 then Inr s else Inl ValidationError)"

text \<open>The transform as the specification words it: \<open>clamp(1 - d, 0, 1)\<close>.\<close>

definition spec_clamp :: "rat \<Rightarrow> rat \<Rightarrow> rat \<Rightarrow> rat" where
  "spec_clamp x lo hi = max lo (min hi x)"


section \<open>The scout agent (\<open>scout_agent/agent.py\<close>)\<close>

text \<open>
  A candidate document is a Python dict with string keys; a key may be missing, and a
  value is a string or \<open>None\<close>.
\<close>

type_synonym doc = "string \<rightharpoonup> pyval"

definition dict_get :: "doc \<Rightarrow> string \<Rightarrow> pyval \<Rightarrow> pyval" where
  "dict_get d k dflt = (case d k of None \<Rightarrow> dflt | Some v \<Rightarrow> v)"

definition truthy :: "pyval \<Rightarrow> bool" where
  "truthy v = (case v of PNone \<Rightarrow> False | PStr s \<Rightarrow> s \<noteq> [])"

text \<open>\<open>doc.get("url", "")\<close>, the key of deduplication.\<close>

abbreviation url_of :: "doc \<Rightarrow> pyval" where
  "url_of d \<equiv> dict_get d ''url'' (PStr [])"

subsection \<open>\<open>_deduplicate\<close>\<close>

fun dedup_loop :: "pyval set \<Rightarrow> doc list \<Rightarrow> doc list" where
  "dedup_loop seen_urls [] = []"
| "dedup_loop seen_urls (d # ds) =
     (let url = dict_get d ''url'' (PStr [])
      in if truthy url \<and> url \<notin> seen_urls
         then d # dedup_loop (insert url seen_urls) ds
         else dedup_loop seen_urls ds)"

definition deduplicate :: "doc list \<Rightarrow> doc list" where
  "deduplicate candidates = dedup_loop {} candidates"

subsection \<open>Collaborators and state\<close>

text \<open>
  The search engine, the vector store, the language model and the web are outside the
  program. Each is a function of the position \<open>i\<close> of the loop that calls it and of the
  argument of the call, so that it may answer the same question differently at different
  moments of a run.
  \<^item> \<open>search_lex_uz i keyword date_filter\<close>: what \<open>_search_lex_uz\<close> returns (it catches
    every exception itself and then returns the empty list);
  \<^item> \<open>has_collection\<close>: whether \<open>self.collection\<close> is truthy;
  \<^item> \<open>collection_get i url\<close>: the number of ids that \<open>collection.get\<close> returns for
    \<open>source_url = url\<close>, \<open>None\<close> when it raises;
  \<^item> \<open>llm_answer i title\<close>: the model's answer, stripped and in upper case, \<open>None\<close> when
    the call raises;
  \<^item> \<open>fetch i url\<close>: what the body of \<open>_scrape_document\<close> returns for a non-empty url,
    \<open>None\<close> when the request or the parsing raises;
  \<^item> \<open>collection_add i call\<close>: whether \<open>collection.add\<close> returns (\<open>False\<close>: it raises);
  \<^item> \<open>now i\<close>: \<open>datetime.now().isoformat()\<close>.
\<close>

record add_call =
  documents :: "ustr list"
  metadatas :: "(ustr \<rightharpoonup> pyval) list"
  ids :: "ustr list"

record env =
  search_lex_uz :: "nat \<Rightarrow> ustr \<Rightarrow> ustr \<Rightarrow> doc list"
  has_collection :: bool
  collection_get :: "nat \<Rightarrow> ustr \<Rightarrow> nat option"
  llm_answer :: "nat \<Rightarrow> ustr \<Rightarrow> ustr option"
  fetch :: "nat \<Rightarrow> ustr \<Rightarrow> ustr option"
  collection_add :: "nat \<Rightarrow> add_call \<Rightarrow> bool"
  now :: "nat \<Rightarrow> ustr"

text \<open>
  A status event keeps its type and the \<open>document_id\<close> of its details. The message and
  the progress value (computed in floating point) are left out; no branch reads them.
\<close>

record status_event =
  event_type :: string
  event_document_id :: pyval

text \<open>
  The state a run changes: the status queue and the vector store (the \<open>add\<close> calls that
  returned). \<open>calls\<close> is not program state: it records, in order, every call the cycle
  makes to \<open>_is_already_indexed\<close>, \<open>_judge_relevance\<close>, \<open>_scrape_document\<close> and
  \<open>collection.add\<close>, with the candidate it is made for.
\<close>

datatype call_kind = ExistsCheck | Judge | Scrape | StoreAdd

record world =
  queue :: "status_event list"
  store :: "add_call list"
  calls :: "(call_kind \<times> doc) list"

definition push_status :: "string \<Rightarrow> pyval \<Rightarrow> world \<Rightarrow> world" where
  "push_status ty doc_id w =
     w\<lparr>queue := queue w @ [\<lparr>event_type = ty, event_document_id = doc_id\<rparr>]\<rparr>"

definition note_call :: "call_kind \<Rightarrow> doc \<Rightarrow> world \<Rightarrow> world" where
  "note_call k d w = w\<lparr>calls := calls w @ [(k, d)]\<rparr>"

subsection \<open>\<open>_is_already_indexed\<close>, \<open>_judge_relevance\<close>, \<open>_scrape_document\<close>\<close>

definition is_already_indexed :: "env \<Rightarrow> nat \<Rightarrow> pyval \<Rightarrow> bool" where
  "is_already_indexed e i url =
     (if \<not> has_collection e \<or> \<not> truthy url then False
      else (case url of
              PNone \<Rightarrow> False
            | PStr u \<Rightarrow> (case collection_get e i u of None \<Rightarrow> False | Some n \<Rightarrow> 0 < n)))"

definition judge_relevance :: "env \<Rightarrow> nat \<Rightarrow> pyval \<Rightarrow> bool" where
  "judge_relevance e i title =
     (if \<not> truthy title then False
      else (case title of
              PNone \<Rightarrow> False
            | PStr t \<Rightarrow> (case llm_answer e i t of
                          None \<Rightarrow> True
                        | Some answer \<Rightarrow> contains (py ''YES'') answer)))"

definition scrape_document :: "env \<Rightarrow> nat \<Rightarrow> pyval \<Rightarrow> ustr option" where
  "scrape_document e i url =
     (if \<not> truthy url then None
      else (case url of PNone \<Rightarrow> None | PStr u \<Rightarrow> fetch e i u))"

subsection \<open>\<open>run_cycle\<close>\<close>

definition DEFAULT_KEYWORDS :: "ustr list" where
  "DEFAULT_KEYWORDS =
     [py ''subsidiya'', py ''grant'', py ''soliq imtiyozi'', py ''kredit'',
      py ''tadbirkorlik'', py ''kichik biznes'', py ''yoshlar tadbirkorligi'',
      py ''soliq ta'' @ [0x27] @ py ''tili'', py ''davlat yordami'', py ''imtiyozli kredit'']"

text \<open>
  HUNT. \<open>_search_lex_uz\<close> returns normally on every input, and putting an event on the
  unbounded queue does not raise, so the \<open>except\<close> branch of this loop is never taken.
\<close>

fun search_loop ::
  "env \<Rightarrow> ustr \<Rightarrow> nat \<Rightarrow> ustr list \<Rightarrow> doc list \<times> world \<Rightarrow> doc list \<times> world" where
  "search_loop e date_filter i [] (candidates, w) = (candidates, w)"
| "search_loop e date_filter i (keyword # kws) (candidates, w) =
     (let results = search_lex_uz e i keyword date_filter
      in search_loop e date_filter (i + 1) kws
           (candidates @ results, push_status ''search'' PNone w))"

text \<open>
  JUDGE, one candidate. Building the message slices \<open>doc.get('title', '')\<close>; when the
  title is \<open>None\<close> that raises \<open>TypeError\<close> inside the \<open>try\<close>, and the handler puts an
  error event on the queue.
\<close>

definition judge_step :: "env \<Rightarrow> nat \<Rightarrow> doc \<Rightarrow> world \<times> doc list \<Rightarrow> world \<times> doc list" where
  "judge_step e i d = (\<lambda>(w, relevant_docs).
     (let w1 = note_call ExistsCheck d w
      in if is_already_indexed e i (dict_get d ''url'' (PStr [])) then (w1, relevant_docs)
         else (let title = dict_get d ''title'' (PStr []);
                   w2 = note_call Judge d w1
               in if judge_relevance e i title
                  then (push_status ''judge'' (dict_get d ''decree_id'' PNone) w2,
                        relevant_docs @ [d])
                  else (case title of
                          PNone \<Rightarrow> (push_status ''error'' PNone w2, relevant_docs)
                        | PStr _ \<Rightarrow> (push_status ''judge'' PNone w2, relevant_docs)))))"

fun judge_loop :: "env \<Rightarrow> nat \<Rightarrow> doc list \<Rightarrow> world \<times> doc list \<Rightarrow> world \<times> doc list" where
  "judge_loop e i [] acc = acc"
| "judge_loop e i (d # ds) acc = judge_loop e (i + 1) ds (judge_step e i d acc)"

text \<open>\<open>str(n)\<close> for the chunk index in a store id, and \<open>str\<close> of a value in an f-string.\<close>

function decimal :: "nat \<Rightarrow> ustr" where
  "decimal n = (if n < 10 then [0x30 + n] else decimal (n div 10) @ [0x30 + n mod 10])"
  by pat_completeness auto
termination
  by (relation "measure id") auto

definition format_val :: "pyval \<Rightarrow> ustr" where
  "format_val v = (case v of PNone \<Rightarrow> py ''None'' | PStr s \<Rightarrow> s)"

text \<open>
  The call \<open>chunk_legal_document(text=content, document_id=doc.get("decree_id", "unknown"),
  title=doc.get("title", ""), metadata={"source_url": ..., "date_scraped": ...})\<close> and the
  arguments of \<open>collection.add\<close> built from its result.
\<close>

definition ingest_chunks :: "env \<Rightarrow> nat \<Rightarrow> doc \<Rightarrow> ustr \<Rightarrow> chunk list" where
  "ingest_chunks e i d content =
     chunk_document content
       (dict_get d ''decree_id'' (PStr (py ''unknown'')))
       (dict_get d ''title'' (PStr []))
       (Some [py ''source_url'' \<mapsto> dict_get d ''url'' PNone,
              py ''date_scraped'' \<mapsto> PStr (now e i)])"

definition store_call :: "doc \<Rightarrow> chunk list \<Rightarrow> add_call" where
  "store_call d chunks =
     \<lparr>documents = map text chunks,
      metadatas = map metadata chunks,
      ids = map (\<lambda>c. format_val (dict_get d ''decree_id'' (PStr (py ''doc'')))
                       @ py ''_'' @ decimal (index c)) chunks\<rparr>"

text \<open>
  INGEST, one relevant document. The count is incremented before the status message is
  built, so a \<open>TypeError\<close> from slicing a \<open>None\<close> title comes after the increment.
\<close>

definition ingest_step :: "env \<Rightarrow> nat \<Rightarrow> doc \<Rightarrow> world \<times> nat \<Rightarrow> world \<times> nat" where
  "ingest_step e i d = (\<lambda>(w, ingested_count).
     (let w1 = note_call Scrape d w
      in case scrape_document e i (dict_get d ''url'' (PStr [])) of
           None \<Rightarrow> (w1, ingested_count)
         | Some content \<Rightarrow>
             if content = [] then (w1, ingested_count)
             else
               (let chunks = ingest_chunks e i d content;
                    call = store_call d chunks;
                    adding = (chunks \<noteq> [] \<and> has_collection e);
                    w2 = (if adding then note_call StoreAdd d w1 else w1)
                in if adding \<and> \<not> collection_add e i call
                   then (push_status ''error'' PNone w2, ingested_count)
                   else (let w3 = (if adding then w2\<lparr>store := store w2 @ [call]\<rparr> else w2)
                         in case dict_get d ''title'' (PStr []) of
                              PNone \<Rightarrow> (push_status ''error'' PNone w3, ingested_count + 1)
                            | PStr _ \<Rightarrow>
                                (push_status ''ingest'' (dict_get d ''decree_id'' PNone) w3,
                                 ingested_count + 1)))))"

fun ingest_loop :: "env \<Rightarrow> nat \<Rightarrow> doc list \<Rightarrow> world \<times> nat \<Rightarrow> world \<times> nat" where
  "ingest_loop e i [] acc = acc"
| "ingest_loop e i (d # ds) acc = ingest_loop e (i + 1) ds (ingest_step e i d acc)"

text \<open>
  Two values to state the order of the stages with: the list \<open>candidates\<close> as HUNT leaves
  it, and the calls that JUDGE makes for a list of candidates: for each candidate the
  existence check and, when the store does not have it, the judgement.
\<close>

definition found_candidates :: "env \<Rightarrow> ustr list \<Rightarrow> ustr \<Rightarrow> doc list" where
  "found_candidates e kws dfilter =
     concat (map (\<lambda>(i, keyword). search_lex_uz e i keyword dfilter)
                 (zip [0 ..< length kws] kws))"

definition judge_calls :: "env \<Rightarrow> nat \<Rightarrow> doc list \<Rightarrow> (call_kind \<times> doc) list" where
  "judge_calls e i0 candidates =
     concat (map (\<lambda>(i, d). (ExistsCheck, d) #
                    (if is_already_indexed e i (url_of d) then [] else [(Judge, d)]))
                 (zip [i0 ..< i0 + length candidates] candidates))"

text \<open>
  Two more, to state what INGEST counts: the candidates that JUDGE hands on (not in the
  store and judged relevant), and the documents whose scrape returns non-empty content
  and for which \<open>collection.add\<close>, where it is called, returns.
\<close>

definition relevant_candidates :: "env \<Rightarrow> doc list \<Rightarrow> doc list" where
  "relevant_candidates e candidates =
     map snd (filter (\<lambda>(i, d). \<not> is_already_indexed e i (url_of d)
                                \<and> judge_relevance e i (dict_get d ''title'' (PStr [])))
                     (zip [0 ..< length candidates] candidates))"

definition ingest_counts :: "env \<Rightarrow> nat \<Rightarrow> doc \<Rightarrow> bool" where
  "ingest_counts e i d =
     (case scrape_document e i (url_of d) of
        None \<Rightarrow> False
      | Some content \<Rightarrow>
          content \<noteq> [] \<and>
          \<not> (ingest_chunks e i d content \<noteq> [] \<and> has_collection e \<and>
             \<not> collection_add e i (store_call d (ingest_chunks e i d content))))"

record tally =
  ingested :: nat
  checked :: nat

text \<open>The candidates that HUNT collects, before deduplication.\<close>

definition search_keywords_of :: "ustr list option \<Rightarrow> ustr list" where
  "search_keywords_of keywords =
     (case keywords of None \<Rightarrow> DEFAULT_KEYWORDS
      | Some ks \<Rightarrow> if ks = [] then DEFAULT_KEYWORDS else ks)"

definition run_cycle :: "env \<Rightarrow> ustr list option \<Rightarrow> ustr \<Rightarrow> world \<Rightarrow> tally \<times> world" where
  "run_cycle e keywords date_filter w0 =
     (let search_keywords = search_keywords_of keywords;
          (found, w1) = search_loop e date_filter 0 search_keywords
                          ([], push_status ''search'' PNone w0);
          candidates = deduplicate found;
          w2 = push_status ''search'' PNone w1;
          (w3, relevant_docs) = judge_loop e 0 candidates (w2, []);
          (w4, ingested_count) = ingest_loop e 0 relevant_docs (w3, 0)
      in (\<lparr>ingested = ingested_count, checked = length candidates\<rparr>, w4))"


section \<open>The scout router (\<open>api/routers/scout.py\<close>)\<close>

record trigger_request =
  request_keywords :: "ustr list option"
  date_filter :: "ustr option"
  force_refresh :: bool

record trigger_response =
  status :: string
  job_id :: ustr
  estimated_duration_seconds :: nat

text \<open>A background task: the arguments \<open>run_scout_cycle\<close> will be called with.\<close>

record task =
  task_job_id :: ustr
  task_keywords :: "ustr list option"
  task_date_filter :: ustr

text \<open>
  The process state the router works on: the registry \<open>_running_jobs\<close>, the tasks handed
  to \<open>background_tasks\<close>, and the state a cycle changes.
\<close>

record app =
  running_jobs :: "ustr \<rightharpoonup> bool"
  background_tasks :: "task list"
  scout_world :: world

text \<open>
  \<open>new_id\<close> is the value of \<open>str(uuid.uuid4())\<close>, \<open>scout_date_filter\<close> the setting of that
  name. The message of the response is left out.
\<close>

definition trigger_scout :: "ustr \<Rightarrow> ustr \<Rightarrow> trigger_request \<Rightarrow> app \<Rightarrow> trigger_response \<times> app" where
  "trigger_scout scout_date_filter new_id request a =
     (let running = (\<exists>b \<in> ran (running_jobs a). b)
      in if running \<and> \<not> force_refresh request
         then (\<lparr>status = ''already_running'', job_id = [], estimated_duration_seconds = 30\<rparr>, a)
         else (\<lparr>status = ''started'', job_id = new_id, estimated_duration_seconds = 60\<rparr>,
               a\<lparr>running_jobs := (running_jobs a)(new_id \<mapsto> True),
                 background_tasks := background_tasks a @
                   [\<lparr>task_job_id = new_id, task_keywords = request_keywords request,
                     task_date_filter = (case date_filter request of
                                           None \<Rightarrow> scout_date_filter
                                         | Some f \<Rightarrow> if f = [] then scout_date_filter else f)\<rparr>]\<rparr>))"

text \<open>
  How the \<open>try\<close> block of \<open>run_scout_cycle\<close> can end other than by the cycle returning:
  the import of the agent raises \<open>ImportError\<close>, or something raises another exception.
\<close>

datatype fault = ImportFailure | Crash

definition router_default_keywords :: "ustr list" where
  "router_default_keywords =
     [py ''subsidiya'', py ''grant'', py ''soliq imtiyozi'', py ''kredit'',
      py ''tadbirkorlik'', py ''kichik biznes'', py ''yoshlar tadbirkorligi'',
      py ''soliq ta'' @ [0x27] @ py ''tili'', py ''davlat yordami'']"

definition demo_scout_events :: "world \<Rightarrow> world" where
  "demo_scout_events w =
     w\<lparr>queue := queue w @
        [\<lparr>event_type = ''search'', event_document_id = PNone\<rparr>,
         \<lparr>event_type = ''search'', event_document_id = PNone\<rparr>,
         \<lparr>event_type = ''judge'', event_document_id = PStr (py ''PQ-60'')\<rparr>,
         \<lparr>event_type = ''judge'', event_document_id = PStr (py ''PD-50'')\<rparr>,
         \<lparr>event_type = ''judge'', event_document_id = PStr (py ''PQ-306'')\<rparr>,
         \<lparr>event_type = ''ingest'', event_document_id = PNone\<rparr>,
         \<lparr>event_type = ''complete'', event_document_id = PNone\<rparr>]\<rparr>"

text \<open>
  \<open>run_scout_cycle\<close>: the three ways through \<open>try\<close>/\<open>except\<close>, then the \<open>finally\<close> clause
  \<open>_running_jobs.pop(job_id, None)\<close>.
\<close>

definition run_scout_cycle ::
  "env \<Rightarrow> fault option \<Rightarrow> ustr \<Rightarrow> ustr list option \<Rightarrow> ustr \<Rightarrow> app \<Rightarrow> app" where
  "run_scout_cycle e flt jid kws dfilter a =
     (let search_keywords = (case kws of None \<Rightarrow> router_default_keywords
                             | Some ks \<Rightarrow> if ks = [] then router_default_keywords else ks);
          w = (case flt of
                 None \<Rightarrow>
                   (let (result, w1) = run_cycle e (Some search_keywords) dfilter (scout_world a)
                    in push_status ''complete'' PNone w1)
               | Some ImportFailure \<Rightarrow> demo_scout_events (scout_world a)
               | Some Crash \<Rightarrow> push_status ''error'' PNone (scout_world a))
      in a\<lparr>scout_world := w, running_jobs := (running_jobs a)(jid := None)\<rparr>)"


section \<open>Properties\<close>

subsection \<open>Relevance score\<close>

lemma round3_lower: "of_int \<lfloor>x * 1000\<rfloor> / 1000 \<le> round3 x"
  unfolding round3_def Let_def by (rule divide_right_mono) auto

lemma round3_upper: "round3 x \<le> (of_int \<lfloor>x * 1000\<rfloor> + 1) / 1000"
  unfolding round3_def Let_def by (rule divide_right_mono) auto

lemma round3_exact: "round3 (of_int k / 1000) = of_int k / 1000"
  by (simp add: round3_def Let_def)


lemma round3_nonneg: "0 \<le> x \<Longrightarrow> 0 \<le> round3 x"
proof -
  assume "0 \<le> x"
  then have "0 \<le> \<lfloor>x * 1000\<rfloor>" by simp
  then have "(0::rat) \<le> of_int \<lfloor>x * 1000\<rfloor> / 1000" by simp
  then show ?thesis using round3_lower [of x] by linarith
qed

lemma round3_ge_one: "1 \<le> x \<Longrightarrow> 1 \<le> round3 x"
proof -
  assume "1 \<le> x"
  then have "1000 \<le> x * 1000" by simp
  then have "1000 \<le> \<lfloor>x * 1000\<rfloor>" by (simp add: le_floor_iff)
  then have "(1::rat) \<le> of_int \<lfloor>x * 1000\<rfloor> / 1000" by simp
  then show ?thesis using round3_lower [of x] by linarith
qed

lemma round3_le_one: "x \<le> 1 \<Longrightarrow> round3 x \<le> 1"
proof (cases "x = 1")
  case True
  then show ?thesis using round3_exact [of 1000] by simp
next
  case False
  assume "x \<le> 1"
  with False have "x * 1000 < 1000" by simp
  then have "\<lfloor>x * 1000\<rfloor> < 1000" by (simp add: floor_less_iff)
  then have "\<lfloor>x * 1000\<rfloor> + 1 \<le> 1000" by simp
  then have "of_int (\<lfloor>x * 1000\<rfloor> + 1) \<le> (of_int 1000 :: rat)" by (rule of_int_le_iff [THEN iffD2])
  then have "(of_int \<lfloor>x * 1000\<rfloor> + 1) / 1000 \<le> (1::rat)" by simp
  then show ?thesis using round3_upper [of x] by linarith
qed


lemma relevance_clamped:
  "round3 (relevance_score d) \<le> 1 \<Longrightarrow>
   round3 (relevance_score d) = round3 (spec_clamp (1 - d) 0 1)"
proof (cases "1 - d \<le> 1")
  case True
  then show ?thesis by (simp add: relevance_score_def spec_clamp_def min_def)
next
  case False
  assume le: "round3 (relevance_score d) \<le> 1"
  from False have rs: "relevance_score d = 1 - d" "1 \<le> 1 - d"
    by (simp_all add: relevance_score_def max_def)
  then have "1 \<le> round3 (relevance_score d)" using round3_ge_one by simp
  with le have "round3 (relevance_score d) = 1" by simp
  moreover from False have "spec_clamp (1 - d) 0 1 = 1" by (simp add: spec_clamp_def min_def max_def)
  moreover have "round3 1 = 1" using round3_exact [of 1000] by simp
  ultimately show ?thesis by simp
qed

lemma source_relevance_samples:
  "source_relevance 0 = Inr 1" "source_relevance 1 = Inr 0" "source_relevance (3 / 2) = Inr 0"
proof -
  have "round3 1 = 1" using round3_exact [of 1000] by simp
  moreover have "round3 0 = 0" using round3_exact [of 0] by simp
  ultimately show "source_relevance 0 = Inr 1" "source_relevance 1 = Inr 0"
    "source_relevance (3 / 2) = Inr 0"
    by (simp_all add: source_relevance_def relevance_score_def Let_def)
qed

text \<open>
  C6. For a match at distance \<open>d\<close> the chat endpoint computes
  \<open>round(max(0, 1 - d), 3)\<close> and hands it to \<open>DocumentSource\<close>, whose field accepts
  values from 0 to 1 only. For every distance \<open>d \<ge> 0\<close> a score is produced, and it is
  \<open>clamp(1 - d, 0, 1)\<close> rounded to three decimals. Every score that is produced, at any
  distance, is that value and lies between 0 and 1. Distance 0 gives 1.000, distance 1
  gives 0.000 and distance 1.5 gives 0.000.
\<close>

theorem relevance_score_clamped_and_bounded:
  "(0 \<le> d \<longrightarrow> source_relevance d = Inr (round3 (spec_clamp (1 - d) 0 1)))
   \<and> (\<forall>s. source_relevance d = Inr s \<longrightarrow>
          s = round3 (spec_clamp (1 - d) 0 1) \<and> 0 \<le> s \<and> s \<le> 1)
   \<and> source_relevance 0 = Inr 1
   \<and> source_relevance 1 = Inr 0
   \<and> source_relevance (3 / 2) = Inr 0"
proof -
  have nn: "0 \<le> round3 (relevance_score d)"
    by (rule round3_nonneg) (simp add: relevance_score_def)
  have a: "source_relevance d = Inr (round3 (spec_clamp (1 - d) 0 1))" if "0 \<le> d"
  proof -
    from that have "relevance_score d \<le> 1" by (simp add: relevance_score_def)
    then have le: "round3 (relevance_score d) \<le> 1" by (rule round3_le_one)
    have "source_relevance d = Inr (round3 (relevance_score d))"
      using nn le by (simp add: source_relevance_def Let_def)
    then show ?thesis using relevance_clamped [OF le] by simp
  qed
  have b: "s = round3 (spec_clamp (1 - d) 0 1) \<and> 0 \<le> s \<and> s \<le> 1"
    if h: "source_relevance d = Inr s" for s
  proof (cases "round3 (relevance_score d) \<le> 1")
    case True
    with nn h have "s = round3 (relevance_score d)"
      by (simp add: source_relevance_def Let_def)
    then show ?thesis using True nn relevance_clamped [OF True] by simp
  next
    case False
    with h show ?thesis by (simp add: source_relevance_def Let_def)
  qed
  show ?thesis using a b source_relevance_samples by blast
qed

theorem relevance_score_clamped_and_bounded_witness:
  "(0::rat) \<le> 1 / 4 \<and> source_relevance (1 / 4) = Inr (3 / 4)"
proof -
  have c: "spec_clamp (1 - 1 / 4) 0 1 = 3 / 4" by (simp add: spec_clamp_def)
  have "round3 (3 / 4) = 3 / 4" using round3_exact [of 750] by simp
  then have r: "round3 (spec_clamp (1 - 1 / 4) 0 1) = 3 / 4" unfolding c .
  have pos: "(0::rat) \<le> 1 / 4" by simp
  from relevance_score_clamped_and_bounded [of "1 / 4"]
  have "0 \<le> (1 / 4 :: rat) \<longrightarrow>
        source_relevance (1 / 4) = Inr (round3 (spec_clamp (1 - 1 / 4) 0 1))"
    by (rule conjunct1)
  then have "source_relevance (1 / 4) = Inr (round3 (spec_clamp (1 - 1 / 4) 0 1))"
    using pos by (rule mp)
  then have "source_relevance (1 / 4) = Inr (3 / 4)" unfolding r .
  with pos show ?thesis by (rule conjI)
qed

subsection \<open>Article markers\<close>

lemmas char_eval = py_def is_space_def is_digit_def nd_ranges_def is_dash_def

lemmas scan_eval = match_article_def match_dash_form_def match_word_form_def is_modda_def

lemma belgilash_clean: "clean_text (py ''1. Belgilash'') = py ''1. Belgilash''"
  by (simp add: clean_text_def strip_def char_eval)

lemma belgilash_no_match: "finditer 0 0 (py ''1. Belgilash'') = []"
  by (simp add: match_article_def match_dash_form_def match_word_form_def is_modda_def char_eval)

text \<open>
  C5. The text \<open>1. Belgilash\<close> contains the third marker pattern of \<open>ARTICLE_PATTERNS\<close>
  (a numeral, a dot and a space at the start), but \<open>_split_by_articles\<close> searches with a
  combined pattern that holds the first two forms only: it finds no marker, the whole text
  is the one article \<open>general\<close>, and \<open>chunk_document\<close> returns it as a single chunk of that
  article.
\<close>

theorem numeral_dot_marker_not_located:
  "numeral_dot_marker (py ''1. Belgilash'')
   \<and> split_by_articles (clean_text (py ''1. Belgilash'')) = [(py ''general'', py ''1. Belgilash'')]
   \<and> map (\<lambda>c. (article c, chunk_type c, text c))
         (chunk_document (py ''1. Belgilash'') (PStr (py ''PQ-1'')) (PStr []) None)
       = [(Some (py ''general''), ''full_article'', py ''1. Belgilash'')]"
proof -
  have m: "numeral_dot_marker (py ''1. Belgilash'')"
    by (simp add: numeral_dot_marker_def char_eval)
  have s: "split_by_articles (clean_text (py ''1. Belgilash''))
           = [(py ''general'', py ''1. Belgilash'')]"
    unfolding belgilash_clean split_by_articles_def belgilash_no_match by simp
  have "strip (py ''1. Belgilash'') \<noteq> []" by (simp add: strip_def char_eval)
  then have c: "map (\<lambda>c. (article c, chunk_type c, text c))
         (chunk_document (py ''1. Belgilash'') (PStr (py ''PQ-1'')) (PStr []) None)
       = [(Some (py ''general''), ''full_article'', py ''1. Belgilash'')]"
    unfolding chunk_document_def pre_overlap_chunks_def s
    by (simp add: add_overlap_def mk_chunk_def TARGET_CHUNK_SIZE_def py_def)
  from m s c show ?thesis by blast
qed

subsection \<open>Admission control and cleanup\<close>

text \<open>
  C8. When some job in the registry is marked running and \<open>force_refresh\<close> is false,
  \<open>trigger_scout\<close> answers \<open>already_running\<close> and leaves the process state as it was: no
  job is registered and no background task is added. Otherwise it answers \<open>started\<close>,
  registers the new job as running and adds one task. After \<open>run_scout_cycle\<close> the job's
  entry is gone from the registry, whether the cycle returned, the import failed or an
  exception was raised.
\<close>

theorem trigger_admission_and_cleanup:
  "((\<exists>b \<in> ran (running_jobs a). b) \<and> \<not> force_refresh request \<longrightarrow>
      trigger_scout sdf new_id request a
        = (\<lparr>status = ''already_running'', job_id = [], estimated_duration_seconds = 30\<rparr>, a))
   \<and> (\<not> ((\<exists>b \<in> ran (running_jobs a). b) \<and> \<not> force_refresh request) \<longrightarrow>
        status (fst (trigger_scout sdf new_id request a)) = ''started''
        \<and> job_id (fst (trigger_scout sdf new_id request a)) = new_id
        \<and> running_jobs (snd (trigger_scout sdf new_id request a)) new_id = Some True
        \<and> length (background_tasks (snd (trigger_scout sdf new_id request a)))
            = length (background_tasks a) + 1)
   \<and> jid \<notin> dom (running_jobs (run_scout_cycle e flt jid kws dfilter a))"
  by (simp add: trigger_scout_def run_scout_cycle_def Let_def)

theorem trigger_admission_and_cleanup_witness:
  "(\<exists>b \<in> ran [py ''job-1'' \<mapsto> True]. b)
   \<and> trigger_scout (py ''after:2025-01-01'') (py ''job-2'')
        \<lparr>request_keywords = None, date_filter = None, force_refresh = False\<rparr>
        \<lparr>running_jobs = [py ''job-1'' \<mapsto> True], background_tasks = [],
          scout_world = \<lparr>queue = [], store = [], calls = []\<rparr>\<rparr>
      = (\<lparr>status = ''already_running'', job_id = [], estimated_duration_seconds = 30\<rparr>,
         \<lparr>running_jobs = [py ''job-1'' \<mapsto> True], background_tasks = [],
          scout_world = \<lparr>queue = [], store = [], calls = []\<rparr>\<rparr>)"
proof -
  have r: "\<exists>b \<in> ran [py ''job-1'' \<mapsto> True]. b" by simp
  from trigger_admission_and_cleanup
         [of "\<lparr>running_jobs = [py ''job-1'' \<mapsto> True], background_tasks = [],
               scout_world = \<lparr>queue = [], store = [], calls = []\<rparr>\<rparr>"
             "\<lparr>request_keywords = None, date_filter = None, force_refresh = False\<rparr>"
             "py ''after:2025-01-01''" "py ''job-2''"]
       r
  show ?thesis by simp
qed

subsection \<open>Auxiliary facts about the string functions and the overlap pass\<close>

lemma py_simps:
  "py [] = []" "py (c # s) = of_char c # py s"
  by (simp_all add: py_def)

lemma strip_id: "s \<noteq> [] \<Longrightarrow> \<not> is_space (hd s) \<Longrightarrow> \<not> is_space (last s) \<Longrightarrow> strip s = s"
proof -
  assume a: "s \<noteq> []" "\<not> is_space (hd s)" "\<not> is_space (last s)"
  then have 1: "dropWhile is_space s = s" by (simp add: dropWhile_eq_self_iff)
  from a have "\<not> is_space (hd (rev s))" by (simp add: hd_rev)
  then have 2: "dropWhile is_space (rev s) = rev s" by (simp add: dropWhile_eq_self_iff)
  show ?thesis unfolding strip_def 1 2 by simp
qed

lemma collapse_ws_append_nospace:
  "\<forall>c \<in> set xs. \<not> is_space c \<Longrightarrow> collapse_ws (xs @ ys) = xs @ collapse_ws ys"
  by (induction xs) simp_all

lemma collapse_ws_nospace: "\<forall>c \<in> set xs. \<not> is_space c \<Longrightarrow> collapse_ws xs = xs"
  using collapse_ws_append_nospace [of xs "[]"] by simp

lemma collapse_nl_id: "10 \<notin> set s \<Longrightarrow> collapse_nl s = s"
  by (induction s) simp_all

lemma is_digit_not_M: "\<not> is_digit 77"
  by (simp add: is_digit_def nd_ranges_def)

lemma match_article_None: "\<not> is_digit c \<Longrightarrow> c \<noteq> 77 \<Longrightarrow> match_article (c # cs) = None"
  by (simp add: match_article_def match_dash_form_def match_word_form_def py_simps)

lemma finditer_none: "\<forall>c \<in> set s. \<not> is_digit c \<and> c \<noteq> 77 \<Longrightarrow> finditer k p s = []"
  by (induction s arbitrary: k p) (simp_all add: match_article_None)

lemma split_loop_no_sep:
  "sep \<noteq> [] \<Longrightarrow> hd sep \<notin> set s \<Longrightarrow> split_loop sep 0 cur s = [cur @ s]"
proof (induction s arbitrary: cur)
  case Nil
  then show ?case by simp
next
  case (Cons c cs)
  then obtain a as where sep: "sep = a # as" by (cases sep) auto
  with Cons show ?case by simp
qed

lemma split_loop_char:
  "c \<notin> set xs \<Longrightarrow> split_loop [c] 0 cur (xs @ c # ys) = (cur @ xs) # split_loop [c] 0 [] ys"
  by (induction xs arbitrary: cur) auto

lemma contains_no: "sep \<noteq> [] \<Longrightarrow> hd sep \<notin> set s \<Longrightarrow> \<not> contains sep s"
proof (induction s)
  case Nil
  then show ?case by simp
next
  case (Cons c cs)
  then obtain a as where sep: "sep = a # as" by (cases sep) auto
  with Cons show ?case by simp
qed

lemma contains_char: "contains [c] s = (c \<in> set s)"
  by (induction s) auto


lemma length_overlap_step: "length (overlap_step i cs) = length cs"
  by (simp add: overlap_step_def Let_def)

lemma overlap_step_nth_other: "j \<noteq> i \<Longrightarrow> overlap_step i cs ! j = cs ! j"
  by (simp add: overlap_step_def Let_def)

lemma overlap_step_more:
  assumes "\<And>c x. f (c\<lparr>text := x\<rparr>) = f c"
  shows "map f (overlap_step i cs) = map f cs"
proof -
  have "(map f cs)[i := f (cs ! i)] = map f cs"
    by (cases "i < length cs") (simp_all add: list_update_same_conv list_update_beyond)
  then show ?thesis by (simp add: overlap_step_def Let_def map_update assms)
qed

lemma length_fold_overlap: "length (fold overlap_step is cs) = length cs"
  by (induction "is" arbitrary: cs) (simp_all add: length_overlap_step)

lemma fold_overlap_more:
  assumes "\<And>c x. f (c\<lparr>text := x\<rparr>) = f c"
  shows "map f (fold overlap_step is cs) = map f cs"
  by (induction "is" arbitrary: cs) (simp_all add: overlap_step_more [of f, OF assms])

lemma length_add_overlap: "length (add_overlap cs) = length cs"
  by (simp add: add_overlap_def length_fold_overlap)

lemma add_overlap_more:
  assumes "\<And>c x. f (c\<lparr>text := x\<rparr>) = f c"
  shows "map f (add_overlap cs) = map f cs"
  by (simp add: add_overlap_def fold_overlap_more [of f, OF assms])

lemma add_overlap_fields:
  "map index (add_overlap cs) = map index cs"
  "map chunk_type (add_overlap cs) = map chunk_type cs"
  "map article (add_overlap cs) = map article cs"
  "map document_id (add_overlap cs) = map document_id cs"
  "map metadata (add_overlap cs) = map metadata cs"
  by (rule add_overlap_more, simp)+

subsection \<open>Chunk sizes\<close>

lemma not_digit_letters: "\<not> is_digit 97" "\<not> is_digit 98" "\<not> is_digit 32" "\<not> is_digit 65" "\<not> is_digit 66"
  by (simp_all add: is_digit_def nd_ranges_def)

lemma space_facts: "is_space 32" "is_space 10" "\<not> is_space 97" "\<not> is_space 98" "\<not> is_space 65" "\<not> is_space 66"
  by (simp_all add: is_space_def)

lemma recursive_split_on_space:
  assumes "10 \<notin> set t" "46 \<notin> set t" "44 \<notin> set t"
  shows "recursive_split t =
           (if 32 \<in> set t \<and> pack_parts [32] [] 0 (split [32] t) \<noteq> []
            then pack_parts [32] [] 0 (split [32] t) else hard_split t)"
proof -
  have "\<not> contains [10, 10] t" "\<not> contains [10] t" "\<not> contains [46, 32] t"
    "\<not> contains [44, 32] t"
    using assms by (simp_all add: contains_no)
  then show ?thesis
    by (simp add: recursive_split_def separators_def py_simps contains_char Let_def)
qed

lemma split_by_sections_no_newline: "10 \<notin> set t \<Longrightarrow> split_by_sections t = [t]"
  by (simp add: split_by_sections_def split_def split_loop_no_sep)

lemma long_word_pieces:
  fixes n :: nat
  assumes n: "2048 < n"
  defines "b \<equiv> replicate n (98::nat)"
  defines "t \<equiv> [97] @ 32 # b"
  shows "strip t \<noteq> []" "clean_text t = t" "split_by_articles t = [(py ''general'', t)]"
    "split_by_sections t = [t]" "recursive_split t = [[97], b]"
proof -
  have bs: "set b \<subseteq> {98}" "length b = n" "b \<noteq> []" "last b = 98"
    using n by (auto simp: b_def)
  have st: "strip t = t"
    unfolding t_def by (rule strip_id) (use bs in \<open>simp_all add: space_facts\<close>)
  then show "strip t \<noteq> []" by (simp add: t_def)
  have "dropWhile is_space b = b" by (simp add: b_def space_facts)
  moreover have "collapse_ws b = b"
    by (rule collapse_ws_nospace) (use bs in \<open>auto simp: space_facts\<close>)
  ultimately have "collapse_ws t = t"
    unfolding t_def by (simp add: collapse_ws_append_nospace space_facts)
  moreover have nl: "10 \<notin> set t" using bs by (auto simp: t_def)
  ultimately show "clean_text t = t" by (simp add: clean_text_def collapse_nl_id st)
  have "finditer 0 0 t = []"
    by (rule finditer_none) (use bs in \<open>auto simp: t_def not_digit_letters\<close>)
  then show "split_by_articles t = [(py ''general'', t)]"
    by (simp add: split_by_articles_def)
  from nl show "split_by_sections t = [t]" by (rule split_by_sections_no_newline)
  have "32 \<notin> set b" using bs by auto
  then have "split_loop [32] 0 [] b = [b]" by (simp add: split_loop_no_sep)
  then have sp: "split [32] t = [[97], b]"
    unfolding split_def t_def by (subst split_loop_char) simp_all
  have pk: "pack_parts [32] [] 0 [[97], b] = [[97], b]"
    using n bs by (simp add: TARGET_CHUNK_SIZE_def flush_def)
  have pk': "pack_parts [32] [] 0 (split [32] t) = [[97], b]"
    unfolding sp by (rule pk)
  have no: "46 \<notin> set t" "44 \<notin> set t" and sp32: "32 \<in> set t"
    using bs by (auto simp: t_def)
  show "recursive_split t = [[97], b]"
    unfolding recursive_split_on_space [OF nl no] pk' using sp32 by simp
qed

text \<open>
  C1. The text \<open>a\<close>, a space and 5000 times \<open>b\<close> has no article marker and no newline,
  full stop or comma. \<open>_recursive_split\<close> cuts it at the space into the parts \<open>a\<close> and
  \<open>bbb...\<close>; the second part alone is longer than the target size, is put into a segment of
  its own and is never split again. The chunks before the overlap pass have the lengths 1
  and 5000, and 5000 is more than \<open>MAX_CHUNK_SIZE\<close>.
\<close>

theorem oversized_sub_section_chunk:
  "map (\<lambda>c. (chunk_type c, length (text c)))
     (pre_overlap_chunks (py ''a '' @ replicate 5000 98) (PStr (py ''PQ-1'')) (PStr []) None)
   = [(''sub_section'', 1), (''sub_section'', 5000)]
   \<and> MAX_CHUNK_SIZE < 5000"
proof -
  have t: "py ''a '' @ replicate 5000 98 = [97] @ 32 # replicate 5000 98"
    by (simp add: py_def)
  have len: "length ([97] @ 32 # replicate 5000 (98::nat)) = 5002" by simp
  show ?thesis
    unfolding t pre_overlap_chunks_def
    using long_word_pieces [of 5000]
    by (simp add: TARGET_CHUNK_SIZE_def MAX_CHUNK_SIZE_def mk_chunk_def Let_def)
qed

subsection \<open>Paragraphs and sections\<close>

lemma two_paragraph_pieces:
  defines "A \<equiv> replicate 1500 (65::nat)"
  defines "B \<equiv> replicate 1500 (66::nat)"
  defines "t \<equiv> A @ 32 # B"
  shows "strip (A @ [10, 10] @ B) \<noteq> []" "clean_text (A @ [10, 10] @ B) = t"
    "split_by_sections (A @ [10, 10] @ B) = [A, B]"
    "split_by_articles t = [(py ''general'', t)]"
    "split_by_sections t = [t]" "recursive_split t = [A, B]" "length t = 3001"
proof -
  have as: "set A \<subseteq> {65}" "length A = 1500" "A \<noteq> []" "hd A = 65"
    and bs: "set B \<subseteq> {66}" "length B = 1500" "B \<noteq> []" "last B = 66"
    by (auto simp: A_def B_def)
  have nsA: "\<forall>c \<in> set A. \<not> is_space c" and nsB: "\<forall>c \<in> set B. \<not> is_space c"
    using as bs by (auto simp: space_facts)
  have "strip (A @ [10, 10] @ B) = A @ [10, 10] @ B"
    by (rule strip_id) (use as bs in \<open>simp_all add: space_facts\<close>)
  then show "strip (A @ [10, 10] @ B) \<noteq> []" using as by simp
  have "dropWhile is_space B = B" by (simp add: B_def space_facts)
  then have "collapse_ws (10 # 10 # B) = 32 # B"
    using collapse_ws_nospace [OF nsB] by (simp add: space_facts)
  then have cw: "collapse_ws (A @ [10, 10] @ B) = t"
    using collapse_ws_append_nospace [OF nsA, of "10 # 10 # B"] by (simp add: t_def)
  have nl: "10 \<notin> set t" using as bs by (auto simp: t_def)
  have st: "strip t = t"
    unfolding t_def by (rule strip_id) (use as bs in \<open>simp_all add: space_facts\<close>)
  show "clean_text (A @ [10, 10] @ B) = t"
    unfolding clean_text_def cw collapse_nl_id [OF nl] by (rule st)
  show len: "length t = 3001" using as bs by (simp add: t_def)
  have "10 \<notin> set A" "10 \<notin> set B" using as bs by auto
  then have "split [10, 10] (A @ [10, 10] @ B) = [A, B]"
  proof (induction A)
    case Nil
    then show ?case by (simp add: split_def split_loop_no_sep)
  next
    case (Cons a A)
    have "split_loop [10, 10] 0 cur (xs @ [10, 10] @ B) = [cur @ xs, B]"
      if "10 \<notin> set xs" for cur xs
      using that \<open>10 \<notin> set B\<close>
      by (induction xs arbitrary: cur) (simp_all add: split_loop_no_sep)
    from this [of "a # A" "[]"] Cons.prems show ?case by (simp add: split_def)
  qed
  then show "split_by_sections (A @ [10, 10] @ B) = [A, B]"
    using as bs by (simp add: split_by_sections_def TARGET_CHUNK_SIZE_def flush_def)
  have "finditer 0 0 t = []"
    by (rule finditer_none) (use as bs in \<open>auto simp: t_def not_digit_letters\<close>)
  then show "split_by_articles t = [(py ''general'', t)]"
    by (simp add: split_by_articles_def)
  from nl show "split_by_sections t = [t]" by (rule split_by_sections_no_newline)
  have "32 \<notin> set A" "32 \<notin> set B" using as bs by auto
  then have sp: "split [32] t = [A, B]"
    unfolding split_def t_def by (simp add: split_loop_char split_loop_no_sep)
  have pk: "pack_parts [32] [] 0 [A, B] = [A, B]"
    using as bs by (simp add: TARGET_CHUNK_SIZE_def flush_def)
  have pk': "pack_parts [32] [] 0 (split [32] t) = [A, B]"
    unfolding sp by (rule pk)
  have no: "46 \<notin> set t" "44 \<notin> set t" and sp32: "32 \<in> set t"
    using as bs by (auto simp: t_def)
  show "recursive_split t = [A, B]"
    unfolding recursive_split_on_space [OF nl no] pk' using sp32 by simp
qed

text \<open>
  C4. Two paragraphs of 1500 characters with a blank line between them: \<open>_split_by_sections\<close>
  applied to this text yields the two paragraphs as two segments. But \<open>chunk_document\<close>
  first calls \<open>_clean_text\<close>, whose first substitution turns every run of whitespace, the
  blank line included, into one space; the article of 3001 characters then has no blank
  line, \<open>_split_by_sections\<close> returns it whole, and it goes to \<open>_recursive_split\<close>. Both
  chunks are tagged \<open>sub_section\<close>, none \<open>section\<close>.
\<close>

theorem paragraphs_never_become_sections:
  "split_by_sections (replicate 1500 65 @ [10, 10] @ replicate 1500 66)
     = [replicate 1500 65, replicate 1500 66]
   \<and> clean_text (replicate 1500 65 @ [10, 10] @ replicate 1500 66)
     = replicate 1500 65 @ 32 # replicate 1500 66
   \<and> map (\<lambda>c. (chunk_type c, text c))
       (pre_overlap_chunks (replicate 1500 65 @ [10, 10] @ replicate 1500 66)
          (PStr (py ''PQ-1'')) (PStr []) None)
     = [(''sub_section'', replicate 1500 65), (''sub_section'', replicate 1500 66)]
   \<and> map chunk_type
       (chunk_document (replicate 1500 65 @ [10, 10] @ replicate 1500 66)
          (PStr (py ''PQ-1'')) (PStr []) None)
     = [''sub_section'', ''sub_section'']"
proof -
  note p = two_paragraph_pieces
  have pre: "map (\<lambda>c. (chunk_type c, text c))
       (pre_overlap_chunks (replicate 1500 65 @ [10, 10] @ replicate 1500 66)
          (PStr (py ''PQ-1'')) (PStr []) None)
     = [(''sub_section'', replicate 1500 65), (''sub_section'', replicate 1500 66)]"
    unfolding pre_overlap_chunks_def using p
    by (simp add: TARGET_CHUNK_SIZE_def mk_chunk_def Let_def)
  have "map chunk_type
       (chunk_document (replicate 1500 65 @ [10, 10] @ replicate 1500 66)
          (PStr (py ''PQ-1'')) (PStr []) None)
     = map chunk_type (pre_overlap_chunks (replicate 1500 65 @ [10, 10] @ replicate 1500 66)
          (PStr (py ''PQ-1'')) (PStr []) None)"
    by (simp add: chunk_document_def add_overlap_fields)
  also have "\<dots> = [''sub_section'', ''sub_section'']"
    using arg_cong [OF pre, of "map fst"] by (simp add: comp_def)
  finally show ?thesis using p(2,3) pre by simp
qed

subsection \<open>The overlap pass\<close>

lemma fold_overlap_upt_Suc:
  "0 < k \<Longrightarrow> fold overlap_step [Suc 0..<Suc k] cs = overlap_step k (fold overlap_step [Suc 0..<k] cs)"
  by (simp add: upt_Suc_append)

lemma fold_overlap_untouched: "k \<le> j \<Longrightarrow> fold overlap_step [Suc 0..<k] cs ! j = cs ! j"
proof (induction k)
  case 0
  then show ?case by simp
next
  case (Suc k)
  show ?case
  proof (cases "k = 0")
    case True
    then show ?thesis by simp
  next
    case False
    with Suc show ?thesis
      by (simp add: fold_overlap_upt_Suc overlap_step_nth_other del: upt_Suc)
  qed
qed

lemma fold_overlap_settled:
  assumes "j < k" "k \<le> m"
  shows "fold overlap_step [Suc 0..<m] cs ! j = fold overlap_step [Suc 0..<k] cs ! j"
  using assms(2)
proof (induction m rule: dec_induct)
  case base
  show ?case ..
next
  case (step n)
  with assms(1) have "0 < n" "j \<noteq> n" by auto
  with step show ?case
    by (simp add: fold_overlap_upt_Suc overlap_step_nth_other del: upt_Suc)
qed

lemma overlap_step_nth_same:
  "i < length cs \<Longrightarrow>
   overlap_step i cs ! i =
     (if OVERLAP_SIZE < length (text (cs ! (i - 1)))
      then (cs ! i)\<lparr>text := py ''...'' @ overlap_of (text (cs ! (i - 1))) @ [10, 10] @ text (cs ! i)\<rparr>
      else cs ! i)"
  by (simp add: overlap_step_def Let_def)

lemma add_overlap_first: "add_overlap cs ! 0 = cs ! 0"
  using fold_overlap_untouched [of 0 0 cs] fold_overlap_settled [of 0 1 "length cs" cs]
  by (cases "length cs \<le> 1") (simp_all add: add_overlap_def)

lemma add_overlap_nth:
  assumes "0 < i" "i < length cs"
  shows "add_overlap cs ! i =
     (if OVERLAP_SIZE < length (text (add_overlap cs ! (i - 1)))
      then (cs ! i)\<lparr>text := py ''...'' @ overlap_of (text (add_overlap cs ! (i - 1)))
                                @ [10, 10] @ text (cs ! i)\<rparr>
      else cs ! i)"
proof -
  let ?F = "\<lambda>k. fold overlap_step [Suc 0..<k] cs"
  from assms have ao: "add_overlap cs = ?F (length cs)" by (simp add: add_overlap_def)
  have 1: "?F (length cs) ! i = ?F (Suc i) ! i"
    using assms by (intro fold_overlap_settled) simp_all
  have 2: "?F (Suc i) = overlap_step i (?F i)"
    using assms by (intro fold_overlap_upt_Suc)
  have 3: "?F i ! i = cs ! i" by (rule fold_overlap_untouched) simp
  have 4: "?F (length cs) ! (i - 1) = ?F i ! (i - 1)"
    using assms by (intro fold_overlap_settled) simp_all
  have "i < length (?F i)" using assms by (simp add: length_fold_overlap)
  then show ?thesis
    unfolding ao 1 2 4 by (simp only: overlap_step_nth_same 3)
qed

lemma add_overlap_suffix:
  "j < length cs \<Longrightarrow> suffix (text (cs ! j)) (text (add_overlap cs ! j))"
proof (cases "j = 0")
  case True
  then show ?thesis by (simp add: add_overlap_first)
next
  case False
  assume "j < length cs"
  with False have "0 < j" "j < length cs" by simp_all
  from add_overlap_nth [OF this] show ?thesis
    by (auto simp: suffix_def)
qed

lemma overlap_of_append: "OVERLAP_SIZE \<le> length q \<Longrightarrow> overlap_of (x @ q) = overlap_of q"
  by (simp add: overlap_of_def)

lemma overlap_of_suffix: "suffix (overlap_of p) p"
proof -
  have "suffix (drop n (drop k p)) p" for n k
    by (metis suffix_drop drop_drop)
  then show ?thesis by (simp add: overlap_of_def Let_def suffix_drop)
qed

lemma length_overlap_of: "length (overlap_of p) \<le> OVERLAP_SIZE"
  by (simp add: overlap_of_def Let_def) linarith

lemma add_overlap_prefixed:
  assumes "0 < i" "i < length cs" "OVERLAP_SIZE < length (text (cs ! (i - 1)))"
  shows "text (add_overlap cs ! i) =
           py ''...'' @ overlap_of (text (cs ! (i - 1))) @ [10, 10] @ text (cs ! i)"
proof -
  from assms have "i - 1 < length cs" by simp
  from add_overlap_suffix [OF this] obtain x
    where x: "text (add_overlap cs ! (i - 1)) = x @ text (cs ! (i - 1))"
    by (auto simp: suffix_def)
  with assms(3) have "OVERLAP_SIZE < length (text (add_overlap cs ! (i - 1)))" by simp
  moreover from assms(3) have "overlap_of (text (add_overlap cs ! (i - 1)))
      = overlap_of (text (cs ! (i - 1)))"
    unfolding x by (intro overlap_of_append) simp
  ultimately show ?thesis using add_overlap_nth [OF assms(1,2)] by simp
qed

lemma add_overlap_second_plain:
  assumes "1 < length cs" "length (text (cs ! 0)) \<le> OVERLAP_SIZE"
  shows "add_overlap cs ! 1 = cs ! 1"
  using add_overlap_nth [of 1 cs] assms by (simp add: add_overlap_first)


lemma map_eq_pair:
  "map f xs = [a, b] \<Longrightarrow> length xs = 2 \<and> f (xs ! 0) = a \<and> f (xs ! 1) = b"
  by (cases xs; cases "tl xs") auto

lemma two_paragraph_pre_chunks:
  "map (\<lambda>c. (chunk_type c, text c))
       (pre_overlap_chunks (replicate 1500 65 @ [10, 10] @ replicate 1500 66)
          (PStr (py ''PQ-1'')) (PStr []) None)
     = [(''sub_section'', replicate 1500 65), (''sub_section'', replicate 1500 66)]"
  unfolding pre_overlap_chunks_def using two_paragraph_pieces
  by (simp add: TARGET_CHUNK_SIZE_def mk_chunk_def Let_def)

text \<open>
  C3, as the code has it. The overlap pass keeps the number of chunks and never changes
  the first chunk. A chunk after the first whose predecessor's pre-overlap text is longer
  than \<open>OVERLAP_SIZE\<close> (400) characters gets the prefix \<open>...\<close>, then the overlap, then a
  blank line; the overlap (\<open>overlap_of\<close>) is the trailing 400 characters of the
  predecessor's pre-overlap text, cut behind their first space when that space is not
  their first character. When the first chunk has at most 400 characters the second chunk
  is left as it is.
\<close>

theorem overlap_prefix_after_long_chunk:
  "length (chunk_document t d ti m) = length (pre_overlap_chunks t d ti m)
   \<and> chunk_document t d ti m ! 0 = pre_overlap_chunks t d ti m ! 0
   \<and> (\<forall>i. 0 < i \<and> i < length (pre_overlap_chunks t d ti m)
            \<and> OVERLAP_SIZE < length (text (pre_overlap_chunks t d ti m ! (i - 1))) \<longrightarrow>
          text (chunk_document t d ti m ! i)
            = py ''...'' @ overlap_of (text (pre_overlap_chunks t d ti m ! (i - 1)))
                @ [10, 10] @ text (pre_overlap_chunks t d ti m ! i))
   \<and> (1 < length (pre_overlap_chunks t d ti m)
        \<and> length (text (pre_overlap_chunks t d ti m ! 0)) \<le> OVERLAP_SIZE \<longrightarrow>
          chunk_document t d ti m ! 1 = pre_overlap_chunks t d ti m ! 1)"
  unfolding chunk_document_def
  using add_overlap_prefixed [of _ "pre_overlap_chunks t d ti m"]
    add_overlap_second_plain [of "pre_overlap_chunks t d ti m"]
  by (simp add: length_add_overlap add_overlap_first)

theorem overlap_prefix_after_long_chunk_witness:
  "(0::nat) < 1
   \<and> 1 < length (pre_overlap_chunks (replicate 1500 65 @ [10, 10] @ replicate 1500 66)
                   (PStr (py ''PQ-1'')) (PStr []) None)
   \<and> OVERLAP_SIZE < length (text (pre_overlap_chunks
         (replicate 1500 65 @ [10, 10] @ replicate 1500 66)
         (PStr (py ''PQ-1'')) (PStr []) None ! (1 - 1)))
   \<and> text (chunk_document (replicate 1500 65 @ [10, 10] @ replicate 1500 66)
             (PStr (py ''PQ-1'')) (PStr []) None ! 1)
       = py ''...'' @ replicate 400 65 @ [10, 10] @ replicate 1500 66"
proof -
  let ?pre = "pre_overlap_chunks (replicate 1500 65 @ [10, 10] @ replicate 1500 66)
                (PStr (py ''PQ-1'')) (PStr []) None"
  have texts: "map text ?pre = [replicate 1500 65, replicate 1500 66]"
    using arg_cong [OF two_paragraph_pre_chunks, of "map snd"] by (simp add: comp_def)
  from map_eq_pair [OF texts] have len: "length ?pre = 2"
    and t0: "text (?pre ! 0) = replicate 1500 65"
    and t1: "text (?pre ! 1) = replicate 1500 66"
    by simp_all
  have ov: "overlap_of (replicate 1500 65) = replicate 400 65"
    by (simp add: overlap_of_def OVERLAP_SIZE_def find_char_def)
  have hyp: "0 < (1::nat) \<and> 1 < length ?pre \<and> OVERLAP_SIZE < length (text (?pre ! (1 - 1)))"
    using len t0 by (simp add: OVERLAP_SIZE_def)
  with overlap_prefix_after_long_chunk
         [of "replicate 1500 65 @ [10, 10] @ replicate 1500 66" "PStr (py ''PQ-1'')" "PStr []" None]
  have "text (chunk_document (replicate 1500 65 @ [10, 10] @ replicate 1500 66)
             (PStr (py ''PQ-1'')) (PStr []) None ! 1)
       = py ''...'' @ overlap_of (text (?pre ! (1 - 1))) @ [10, 10] @ text (?pre ! 1)"
    by blast
  then show ?thesis using hyp t0 t1 ov by simp
qed

text \<open>
  C3 as stated fails: in \<open>Modda 1 A Modda 2 B\<close> the second article follows a chunk of nine
  characters, and its chunk comes out without any prefix.
\<close>

theorem short_predecessor_gives_no_prefix:
  "map text (chunk_document (py ''Modda 1 A Modda 2 B'') (PStr (py ''PQ-1'')) (PStr []) None)
   = [py ''Modda 1 A'', py ''Modda 2 B'']"
proof -
  have c: "clean_text (py ''Modda 1 A Modda 2 B'') = py ''Modda 1 A Modda 2 B''"
    by (simp add: clean_text_def strip_def char_eval)
  have f: "finditer 0 0 (py ''Modda 1 A Modda 2 B'') = [(0, py ''1''), (10, py ''2'')]"
    by (simp add: scan_eval char_eval)
  have a: "split_by_articles (py ''Modda 1 A Modda 2 B'')
           = [(py ''1-modda'', py ''Modda 1 A''), (py ''2-modda'', py ''Modda 2 B'')]"
    unfolding split_by_articles_def f
    by (simp add: strip_def MIN_CHUNK_SIZE_def char_eval)
  have s: "strip (py ''Modda 1 A Modda 2 B'') \<noteq> []" by (simp add: strip_def char_eval)
  have p: "map text (pre_overlap_chunks (py ''Modda 1 A Modda 2 B'') (PStr (py ''PQ-1'')) (PStr []) None)
           = [py ''Modda 1 A'', py ''Modda 2 B'']"
    unfolding pre_overlap_chunks_def c a using s
    by (simp add: mk_chunk_def TARGET_CHUNK_SIZE_def py_def Let_def)
  let ?pre = "pre_overlap_chunks (py ''Modda 1 A Modda 2 B'') (PStr (py ''PQ-1'')) (PStr []) None"
  from map_eq_pair [OF p] have len: "length ?pre = 2"
    and t0: "text (?pre ! 0) = py ''Modda 1 A''" by simp_all
  then have 1: "add_overlap ?pre ! 1 = ?pre ! 1"
    by (intro add_overlap_second_plain) (simp_all add: OVERLAP_SIZE_def py_def)
  have "map text (add_overlap ?pre) = map text ?pre"
  proof (rule nth_equalityI)
    show "length (map text (add_overlap ?pre)) = length (map text ?pre)"
      by (simp add: length_add_overlap)
    fix i assume "i < length (map text (add_overlap ?pre))"
    then have "i = 0 \<or> i = 1" using len by (auto simp: length_add_overlap)
    then show "map text (add_overlap ?pre) ! i = map text ?pre ! i"
      using len 1 by (auto simp: length_add_overlap add_overlap_first)
  qed
  with p show ?thesis by (simp add: chunk_document_def)
qed

subsection \<open>Deduplication\<close>

lemma dedup_loop_subseq: "subseq (dedup_loop seen ds) ds"
  by (induction ds arbitrary: seen) (auto simp: Let_def)

lemma dedup_loop_member:
  "d \<in> set (dedup_loop seen ds) \<Longrightarrow> d \<in> set ds \<and> truthy (url_of d) \<and> url_of d \<notin> seen"
  by (induction ds arbitrary: seen) (auto simp: Let_def split: if_splits)

lemma dedup_loop_distinct: "distinct (map url_of (dedup_loop seen ds))"
proof (induction ds arbitrary: seen)
  case Nil
  then show ?case by simp
next
  case (Cons x ds)
  have "url_of x \<notin> url_of ` set (dedup_loop (insert (url_of x) seen) ds)"
  proof
    assume "url_of x \<in> url_of ` set (dedup_loop (insert (url_of x) seen) ds)"
    then obtain d where d: "d \<in> set (dedup_loop (insert (url_of x) seen) ds)"
      and eq: "url_of x = url_of d" by blast
    from dedup_loop_member [OF d] eq show False by simp
  qed
  with Cons show ?case by (simp add: Let_def)
qed

lemma dedup_loop_first:
  "d \<in> set (dedup_loop seen ds) \<Longrightarrow> find (\<lambda>x. url_of x = url_of d) ds = Some d"
proof (induction ds arbitrary: seen)
  case Nil
  then show ?case by simp
next
  case (Cons x ds)
  show ?case
  proof (cases "truthy (url_of x) \<and> url_of x \<notin> seen")
    case True
    with Cons.prems have "d = x \<or> d \<in> set (dedup_loop (insert (url_of x) seen) ds)"
      by (simp add: Let_def)
    then show ?thesis
    proof
      assume "d = x" then show ?thesis by simp
    next
      assume in_rest: "d \<in> set (dedup_loop (insert (url_of x) seen) ds)"
      then have "url_of d \<noteq> url_of x" using dedup_loop_member [OF in_rest] by auto
      with Cons.IH [OF in_rest] show ?thesis by simp
    qed
  next
    case False
    with Cons.prems have in_rest: "d \<in> set (dedup_loop seen ds)" by (auto simp: Let_def)
    from dedup_loop_member [OF in_rest] False have "url_of x \<noteq> url_of d" by auto
    with Cons.IH [OF in_rest] show ?thesis by simp
  qed
qed

lemma dedup_loop_urls:
  "url_of ` set (dedup_loop seen ds) = {u \<in> url_of ` set ds. truthy u \<and> u \<notin> seen}"
proof (induction ds arbitrary: seen)
  case Nil
  then show ?case by simp
next
  case (Cons x ds)
  show ?case
  proof (cases "truthy (url_of x) \<and> url_of x \<notin> seen")
    case True
    then show ?thesis using Cons.IH [of "insert (url_of x) seen"] by (auto simp: Let_def)
  next
    case False
    then show ?thesis using Cons.IH [of seen] by (auto simp: Let_def)
  qed
qed

lemma dedup_loop_drops_unaddressed:
  "dedup_loop seen (filter (\<lambda>d. truthy (url_of d)) ds) = dedup_loop seen ds"
  by (induction ds arbitrary: seen) (auto simp: Let_def)

lemma length_deduplicate:
  "length (deduplicate cs) = card {u \<in> url_of ` set cs. truthy u}"
proof -
  have "length (deduplicate cs) = length (map url_of (deduplicate cs))" by simp
  also have "\<dots> = card (set (map url_of (deduplicate cs)))"
    using distinct_card [OF dedup_loop_distinct [of "{}" cs]] by (simp only: deduplicate_def)
  also have "\<dots> = card {u \<in> url_of ` set cs. truthy u}"
    using dedup_loop_urls [of "{}" cs] by (simp add: deduplicate_def)
  finally show ?thesis .
qed

lemma truthy_url_iff:
  "\<not> truthy (url_of d) \<longleftrightarrow> d ''url'' = None \<or> d ''url'' = Some PNone \<or> d ''url'' = Some (PStr [])"
  by (auto simp: truthy_def dict_get_def split: option.splits pyval.splits)

subsection \<open>The stages of a cycle\<close>

lemma push_status_fields [simp]:
  "calls (push_status ty v w) = calls w" "store (push_status ty v w) = store w"
  "queue (push_status ty v w) = queue w @ [\<lparr>event_type = ty, event_document_id = v\<rparr>]"
  by (simp_all add: push_status_def)

lemma note_call_fields [simp]:
  "calls (note_call k d w) = calls w @ [(k, d)]" "store (note_call k d w) = store w"
  "queue (note_call k d w) = queue w"
  by (simp_all add: note_call_def)

lemma upt_shift: "[i ..< i + Suc n] = i # [Suc i ..< Suc i + n]"
  by (subst upt_conv_Cons) simp_all

lemma search_loop_found:
  "fst (search_loop e df i kws (c, w))
     = c @ concat (map (\<lambda>(j, k). search_lex_uz e j k df) (zip [i ..< i + length kws] kws))"
proof (induction kws arbitrary: i c w)
  case Nil
  then show ?case by simp
next
  case (Cons k kws)
  have "[i ..< i + length (k # kws)] = i # [Suc i ..< Suc i + length kws]"
    using upt_shift [of i "length kws"] by simp
  with Cons [of "Suc i"] show ?case by (simp add: Let_def del: upt_Suc)
qed

lemma search_loop_calls: "calls (snd (search_loop e df i kws (c, w))) = calls w"
  by (induction kws arbitrary: i c w) (simp_all add: Let_def)

lemma judge_step_calls:
  "calls (fst (judge_step e i d (w, r)))
     = calls w @ (ExistsCheck, d) # (if is_already_indexed e i (url_of d) then [] else [(Judge, d)])"
  by (simp add: judge_step_def Let_def split: pyval.splits)

lemma judge_step_relevant:
  "snd (judge_step e i d (w, r))
     = r @ (if \<not> is_already_indexed e i (url_of d)
               \<and> judge_relevance e i (dict_get d ''title'' (PStr [])) then [d] else [])"
  by (simp add: judge_step_def Let_def split: pyval.splits)

lemma judge_loop_calls:
  "calls (fst (judge_loop e i ds (w, r))) = calls w @ judge_calls e i ds"
proof (induction ds arbitrary: i w r)
  case Nil
  then show ?case by (simp add: judge_calls_def)
next
  case (Cons d ds)
  obtain w' r' where st: "judge_step e i d (w, r) = (w', r')" by (cases "judge_step e i d (w, r)")
  have w': "calls w' = calls w @ (ExistsCheck, d) #
              (if is_already_indexed e i (url_of d) then [] else [(Judge, d)])"
    using judge_step_calls [of e i d w r] st by simp
  have up: "[i ..< i + length (d # ds)] = i # [Suc i ..< Suc i + length ds]"
    using upt_shift [of i "length ds"] by simp
  have "judge_calls e i (d # ds)
        = (ExistsCheck, d) # (if is_already_indexed e i (url_of d) then [] else [(Judge, d)])
          @ judge_calls e (Suc i) ds"
    unfolding judge_calls_def up by simp
  with Cons [of "Suc i" w' r'] st w' show ?case by simp
qed

lemma judge_loop_relevant:
  "snd (judge_loop e i ds (w, r))
     = r @ map snd (filter (\<lambda>(j, d). \<not> is_already_indexed e j (url_of d)
                                  \<and> judge_relevance e j (dict_get d ''title'' (PStr [])))
                           (zip [i ..< i + length ds] ds))"
proof (induction ds arbitrary: i w r)
  case Nil
  then show ?case by simp
next
  case (Cons d ds)
  obtain w' r' where st: "judge_step e i d (w, r) = (w', r')" by (cases "judge_step e i d (w, r)")
  have r': "r' = r @ (if \<not> is_already_indexed e i (url_of d)
               \<and> judge_relevance e i (dict_get d ''title'' (PStr [])) then [d] else [])"
    using judge_step_relevant [of e i d w r] st by simp
  have up: "[i ..< i + length (d # ds)] = i # [Suc i ..< Suc i + length ds]"
    using upt_shift [of i "length ds"] by simp
  show ?case unfolding up using Cons [of "Suc i" w' r'] st r' by simp
qed

lemma judge_loop_relevant_subset: "set (snd (judge_loop e i ds (w, []))) \<subseteq> set ds"
proof -
  have "set (map snd (filter P (zip xs ds))) \<subseteq> set ds" for P and xs :: "nat list"
    by (auto dest: set_zip_rightD)
  then show ?thesis by (simp add: judge_loop_relevant)
qed

lemma judge_calls_docs: "c \<in> set (judge_calls e i ds) \<Longrightarrow> snd c \<in> set ds"
  by (auto simp: judge_calls_def dest: set_zip_rightD split: if_splits)

lemma ingest_step_calls:
  "\<exists>ic. calls (fst (ingest_step e i d (w, n))) = calls w @ ic
        \<and> (\<forall>c \<in> set ic. (fst c = Scrape \<or> fst c = StoreAdd) \<and> snd c = d)"
  by (auto simp: ingest_step_def Let_def split: option.splits pyval.splits)

lemma ingest_loop_calls:
  "\<exists>ic. calls (fst (ingest_loop e i ds (w, n))) = calls w @ ic
        \<and> (\<forall>c \<in> set ic. (fst c = Scrape \<or> fst c = StoreAdd) \<and> snd c \<in> set ds)"
proof (induction ds arbitrary: i w n)
  case Nil
  then show ?case by simp
next
  case (Cons d ds)
  obtain w' n' where st: "ingest_step e i d (w, n) = (w', n')" by (cases "ingest_step e i d (w, n)")
  from ingest_step_calls [of e i d w n] st obtain ic1
    where 1: "calls w' = calls w @ ic1"
      and k1: "\<forall>c \<in> set ic1. (fst c = Scrape \<or> fst c = StoreAdd) \<and> snd c = d" by auto
  from Cons [of "i + 1" w' n'] obtain ic2
    where 2: "calls (fst (ingest_loop e (i + 1) ds (w', n'))) = calls w' @ ic2"
      and k2: "\<forall>c \<in> set ic2. (fst c = Scrape \<or> fst c = StoreAdd) \<and> snd c \<in> set ds" by auto
  have "calls (fst (ingest_loop e i (d # ds) (w, n))) = calls w @ (ic1 @ ic2)"
    using st 1 2 by simp
  moreover have "\<forall>c \<in> set (ic1 @ ic2). (fst c = Scrape \<or> fst c = StoreAdd) \<and> snd c \<in> set (d # ds)"
    using k1 k2 by auto
  ultimately show ?case by blast
qed

lemma ingest_step_counts:
  assumes "scrape_document e i (url_of d) = Some content" "content \<noteq> []"
    and "ingest_chunks e i d content \<noteq> [] \<and> has_collection e \<longrightarrow>
           collection_add e i (store_call d (ingest_chunks e i d content))"
  shows "snd (ingest_step e i d (w, n)) = n + 1"
  using assms by (auto simp: ingest_step_def Let_def split: pyval.splits)

lemma ingest_step_skips:
  assumes "scrape_document e i (url_of d) = None \<or> scrape_document e i (url_of d) = Some []"
  shows "ingest_step e i d (w, n) = (note_call Scrape d w, n)"
  using assms by (auto simp: ingest_step_def Let_def)

lemma ingest_step_no_write:
  assumes "scrape_document e i (url_of d) = Some content"
    and "ingest_chunks e i d content = [] \<or> \<not> has_collection e"
  shows "store (fst (ingest_step e i d (w, n))) = store w"
  using assms by (auto simp: ingest_step_def Let_def split: pyval.splits)

lemma run_cycle_unfold:
  "run_cycle e kws df w =
     (let cands = deduplicate (found_candidates e (search_keywords_of kws) df);
          w2 = push_status ''search'' PNone
                 (snd (search_loop e df 0 (search_keywords_of kws)
                         ([], push_status ''search'' PNone w)));
          j = judge_loop e 0 cands (w2, []);
          g = ingest_loop e 0 (snd j) (fst j, 0)
      in (\<lparr>ingested = snd g, checked = length cands\<rparr>, fst g))"
  using search_loop_found [of e df 0 "search_keywords_of kws" "[]" "push_status ''search'' PNone w"]
  by (simp add: run_cycle_def Let_def split_beta found_candidates_def)

lemma run_cycle_checked:
  "checked (fst (run_cycle e kws df w))
     = length (deduplicate (found_candidates e (search_keywords_of kws) df))"
  by (simp add: run_cycle_unfold Let_def)

lemma run_cycle_calls:
  "\<exists>ic. calls (snd (run_cycle e kws df w))
          = calls w @ judge_calls e 0 (deduplicate (found_candidates e (search_keywords_of kws) df)) @ ic
        \<and> (\<forall>c \<in> set ic. (fst c = Scrape \<or> fst c = StoreAdd)
              \<and> snd c \<in> set (deduplicate (found_candidates e (search_keywords_of kws) df)))"
proof -
  let ?cands = "deduplicate (found_candidates e (search_keywords_of kws) df)"
  let ?w2 = "push_status ''search'' PNone
               (snd (search_loop e df 0 (search_keywords_of kws)
                       ([], push_status ''search'' PNone w)))"
  let ?j = "judge_loop e 0 ?cands (?w2, [])"
  have c2: "calls ?w2 = calls w" by (simp add: search_loop_calls)
  have cj: "calls (fst ?j) = calls w @ judge_calls e 0 ?cands"
    using judge_loop_calls [of e 0 ?cands ?w2 "[]"] c2 by simp
  have rel: "set (snd ?j) \<subseteq> set ?cands" by (rule judge_loop_relevant_subset)
  from ingest_loop_calls [of e 0 "snd ?j" "fst ?j" 0] obtain ic
    where ci: "calls (fst (ingest_loop e 0 (snd ?j) (fst ?j, 0))) = calls (fst ?j) @ ic"
      and ki: "\<forall>c \<in> set ic. (fst c = Scrape \<or> fst c = StoreAdd) \<and> snd c \<in> set (snd ?j)"
    by blast
  have "calls (snd (run_cycle e kws df w)) = calls w @ judge_calls e 0 ?cands @ ic"
    using ci cj by (simp add: run_cycle_unfold Let_def)
  moreover have "\<forall>c \<in> set ic. (fst c = Scrape \<or> fst c = StoreAdd) \<and> snd c \<in> set ?cands"
    using ki rel by blast
  ultimately show ?thesis by blast
qed

subsection \<open>Order of deduplication, existence check and judgement\<close>

lemma single_keyword_found:
  "found_candidates e (search_keywords_of (Some [k])) df = search_lex_uz e 0 k df"
  by (simp add: found_candidates_def search_keywords_of_def)

lemma deduplicate_same_url:
  "truthy (url_of r1) \<Longrightarrow> url_of r2 = url_of r1 \<Longrightarrow> deduplicate [r1, r2] = [r1]"
  by (simp add: deduplicate_def Let_def)

lemma shared_url_scenario:
  assumes found: "search_lex_uz e 0 k df = [r1, r2]"
    and url: "truthy (url_of r1)" "url_of r2 = url_of r1"
  shows "checked (fst (run_cycle e (Some [k]) df w)) = 1"
    and "\<not> is_already_indexed e 0 (url_of r1)
         \<and> judge_relevance e 0 (dict_get r1 ''title'' (PStr []))
         \<and> (\<exists>content. scrape_document e 0 (url_of r1) = Some content \<and> content \<noteq> [])
         \<and> (\<forall>c. collection_add e 0 c)
         \<longrightarrow> ingested (fst (run_cycle e (Some [k]) df w)) = 1"
proof -
  have cands: "deduplicate (found_candidates e (search_keywords_of (Some [k])) df) = [r1]"
    using found url by (simp add: single_keyword_found deduplicate_same_url)
  then show "checked (fst (run_cycle e (Some [k]) df w)) = 1"
    by (simp add: run_cycle_checked)
  show "\<not> is_already_indexed e 0 (url_of r1)
         \<and> judge_relevance e 0 (dict_get r1 ''title'' (PStr []))
         \<and> (\<exists>content. scrape_document e 0 (url_of r1) = Some content \<and> content \<noteq> [])
         \<and> (\<forall>c. collection_add e 0 c)
         \<longrightarrow> ingested (fst (run_cycle e (Some [k]) df w)) = 1"
  proof (intro impI, elim conjE exE)
    fix content
    assume a: "\<not> is_already_indexed e 0 (url_of r1)"
      "judge_relevance e 0 (dict_get r1 ''title'' (PStr []))"
      "scrape_document e 0 (url_of r1) = Some content" "content \<noteq> []"
      "\<forall>c. collection_add e 0 c"
    have rel: "snd (judge_loop e 0 [r1] (w2, [])) = [r1]" for w2
      using a(1,2) judge_step_relevant [of e 0 r1 w2 "[]"] by simp
    have "snd (ingest_loop e 0 [r1] (w3, 0)) = 1" for w3
      using ingest_step_counts [OF a(3,4), of w3 0] a(5) by simp
    with rel show "ingested (fst (run_cycle e (Some [k]) df w)) = 1"
      by (simp add: run_cycle_unfold Let_def cands)
  qed
qed

text \<open>
  C7. \<open>_deduplicate\<close> keeps a subsequence of the candidates in which no URL occurs twice,
  every non-empty URL of the input occurs, and each kept candidate is the first of the
  input with its URL. \<open>run_cycle\<close> reports as \<open>checked\<close> the length of the deduplicated
  list of everything the searches returned. The calls it makes are, in this order: for
  each deduplicated candidate in turn the existence check and, only when the store does
  not have the URL, the judgement; after all of these the scrapes and store writes. When
  the search for a single keyword returns two results with the same non-empty URL, the
  first is kept, \<open>checked\<close> is 1, and \<open>ingested\<close> is 1 when that candidate is not in the
  store, is judged relevant, its scrape returns non-empty content and the store write
  returns.
\<close>

theorem dedup_then_exists_then_judge:
  "subseq (deduplicate cs) cs
   \<and> distinct (map url_of (deduplicate cs))
   \<and> (\<forall>d \<in> set (deduplicate cs). find (\<lambda>x. url_of x = url_of d) cs = Some d)
   \<and> url_of ` set (deduplicate cs) = {u \<in> url_of ` set cs. truthy u}
   \<and> checked (fst (run_cycle e kws df w))
       = length (deduplicate (found_candidates e (search_keywords_of kws) df))
   \<and> (\<exists>ic. calls (snd (run_cycle e kws df w))
             = calls w
               @ judge_calls e 0 (deduplicate (found_candidates e (search_keywords_of kws) df))
               @ ic
           \<and> (\<forall>c \<in> set ic. fst c = Scrape \<or> fst c = StoreAdd))
   \<and> (search_lex_uz e 0 k df = [r1, r2] \<and> truthy (url_of r1) \<and> url_of r2 = url_of r1 \<longrightarrow>
        deduplicate [r1, r2] = [r1]
        \<and> checked (fst (run_cycle e (Some [k]) df w)) = 1
        \<and> (\<not> is_already_indexed e 0 (url_of r1)
            \<and> judge_relevance e 0 (dict_get r1 ''title'' (PStr []))
            \<and> (\<exists>content. scrape_document e 0 (url_of r1) = Some content \<and> content \<noteq> [])
            \<and> (\<forall>c. collection_add e 0 c)
            \<longrightarrow> ingested (fst (run_cycle e (Some [k]) df w)) = 1))"
proof -
  have 1: "subseq (deduplicate cs) cs" by (simp add: deduplicate_def dedup_loop_subseq)
  have 2: "distinct (map url_of (deduplicate cs))"
    by (simp only: deduplicate_def dedup_loop_distinct)
  have 3: "\<forall>d \<in> set (deduplicate cs). find (\<lambda>x. url_of x = url_of d) cs = Some d"
    by (auto simp: deduplicate_def dest: dedup_loop_first)
  have 4: "url_of ` set (deduplicate cs) = {u \<in> url_of ` set cs. truthy u}"
    using dedup_loop_urls [of "{}" cs] by (simp add: deduplicate_def)
  have 6: "\<exists>ic. calls (snd (run_cycle e kws df w))
             = calls w
               @ judge_calls e 0 (deduplicate (found_candidates e (search_keywords_of kws) df))
               @ ic
           \<and> (\<forall>c \<in> set ic. fst c = Scrape \<or> fst c = StoreAdd)"
    using run_cycle_calls [of e kws df w] by blast
  show ?thesis
    using 1 2 3 4 6 run_cycle_checked [of e kws df w] shared_url_scenario [of e k df r1 r2 w]
      deduplicate_same_url [of r1 r2]
    by blast
qed


theorem dedup_then_exists_then_judge_witness:
  "(let r1 = [''url'' \<mapsto> PStr (py ''u1''), ''title'' \<mapsto> PStr (py ''Subsidiya'')];
        r2 = [''url'' \<mapsto> PStr (py ''u1''), ''title'' \<mapsto> PStr (py ''Grant'')];
        e = \<lparr>search_lex_uz = (\<lambda>i k f. [r1, r2]), has_collection = True,
             collection_get = (\<lambda>i u. Some 0), llm_answer = (\<lambda>i t. Some (py ''YES'')),
             fetch = (\<lambda>i u. Some (py ''1-modda. Matn'')), collection_add = (\<lambda>i c. True),
             now = (\<lambda>i. py ''2025-01-01'')\<rparr>;
        w = \<lparr>queue = [], store = [], calls = []\<rparr>
    in search_lex_uz e 0 (py ''grant'') (py ''after:2025-01-01'') = [r1, r2]
       \<and> truthy (url_of r1) \<and> url_of r2 = url_of r1
       \<and> \<not> is_already_indexed e 0 (url_of r1)
       \<and> judge_relevance e 0 (dict_get r1 ''title'' (PStr []))
       \<and> (\<exists>content. scrape_document e 0 (url_of r1) = Some content \<and> content \<noteq> [])
       \<and> (\<forall>c. collection_add e 0 c)
       \<and> checked (fst (run_cycle e (Some [py ''grant'']) (py ''after:2025-01-01'') w)) = 1
       \<and> ingested (fst (run_cycle e (Some [py ''grant'']) (py ''after:2025-01-01'') w)) = 1)"
proof -
  let ?r1 = "[''url'' \<mapsto> PStr (py ''u1''), ''title'' \<mapsto> PStr (py ''Subsidiya'')] :: doc"
  let ?r2 = "[''url'' \<mapsto> PStr (py ''u1''), ''title'' \<mapsto> PStr (py ''Grant'')] :: doc"
  let ?e = "\<lparr>search_lex_uz = (\<lambda>i k f. [?r1, ?r2]), has_collection = True,
             collection_get = (\<lambda>i u. Some 0), llm_answer = (\<lambda>i t. Some (py ''YES'')),
             fetch = (\<lambda>i u. Some (py ''1-modda. Matn'')), collection_add = (\<lambda>i c. True),
             now = (\<lambda>i. py ''2025-01-01'')\<rparr>"
  let ?w = "\<lparr>queue = [], store = [], calls = []\<rparr>"
  have h1: "search_lex_uz ?e 0 (py ''grant'') (py ''after:2025-01-01'') = [?r1, ?r2]" by simp
  have h2: "truthy (url_of ?r1)" by (simp add: truthy_def dict_get_def py_def)
  have h3: "url_of ?r2 = url_of ?r1" by (simp add: dict_get_def)
  have h4: "\<not> is_already_indexed ?e 0 (url_of ?r1)"
    by (simp add: is_already_indexed_def dict_get_def)
  have h5: "judge_relevance ?e 0 (dict_get ?r1 ''title'' (PStr []))"
    by (simp add: judge_relevance_def truthy_def dict_get_def py_def)
  have h6: "\<exists>content. scrape_document ?e 0 (url_of ?r1) = Some content \<and> content \<noteq> []"
    by (simp add: scrape_document_def truthy_def dict_get_def py_def)
  have h7: "\<forall>c. collection_add ?e 0 c" by simp
  from dedup_then_exists_then_judge
         [of "[?r1, ?r2]" ?e "Some [py ''grant'']" "py ''after:2025-01-01''" ?w "py ''grant''" ?r1 ?r2]
    h1 h2 h3 h4 h5 h6 h7
  have "checked (fst (run_cycle ?e (Some [py ''grant'']) (py ''after:2025-01-01'') ?w)) = 1
        \<and> ingested (fst (run_cycle ?e (Some [py ''grant'']) (py ''after:2025-01-01'') ?w)) = 1"
    by blast
  with h1 h2 h3 h4 h5 h6 h7 show ?thesis unfolding Let_def by blast
qed

subsection \<open>Candidates without a URL\<close>

text \<open>
  C9. A candidate's URL is falsy exactly when the key \<open>url\<close> is missing or its value is
  \<open>None\<close> or the empty string. \<open>_deduplicate\<close> keeps no such candidate, and its result is
  the same as on the list without them. \<open>checked\<close> is the length of the deduplicated list,
  which is the number of distinct non-empty URLs found. Every call that \<open>run_cycle\<close> makes
  (existence check, judgement, scrape, store write) is for a deduplicated candidate with
  a non-empty URL.
\<close>

theorem unaddressed_candidates_dropped:
  "(\<not> truthy (url_of d) \<longleftrightarrow>
      d ''url'' = None \<or> d ''url'' = Some PNone \<or> d ''url'' = Some (PStr []))
   \<and> (\<forall>c \<in> set (deduplicate cs). truthy (url_of c))
   \<and> deduplicate (filter (\<lambda>c. truthy (url_of c)) cs) = deduplicate cs
   \<and> checked (fst (run_cycle e kws df w))
       = length (deduplicate (found_candidates e (search_keywords_of kws) df))
   \<and> checked (fst (run_cycle e kws df w))
       = card {u \<in> url_of ` set (found_candidates e (search_keywords_of kws) df). truthy u}
   \<and> (\<forall>c \<in> set (drop (length (calls w)) (calls (snd (run_cycle e kws df w)))).
         truthy (url_of (snd c))
         \<and> snd c \<in> set (deduplicate (found_candidates e (search_keywords_of kws) df)))"
proof -
  let ?cands = "deduplicate (found_candidates e (search_keywords_of kws) df)"
  have 2: "\<forall>c \<in> set (deduplicate cs). truthy (url_of c)" for cs
    by (auto simp: deduplicate_def dest: dedup_loop_member)
  have 3: "deduplicate (filter (\<lambda>c. truthy (url_of c)) cs) = deduplicate cs"
    by (simp add: deduplicate_def dedup_loop_drops_unaddressed)
  from run_cycle_calls [of e kws df w] obtain ic
    where c: "calls (snd (run_cycle e kws df w)) = calls w @ judge_calls e 0 ?cands @ ic"
      and k: "\<forall>c \<in> set ic. snd c \<in> set ?cands" by blast
  have "\<forall>c \<in> set (judge_calls e 0 ?cands @ ic). snd c \<in> set ?cands"
    using k judge_calls_docs [of _ e 0 ?cands] by auto
  then have 6: "\<forall>c \<in> set (drop (length (calls w)) (calls (snd (run_cycle e kws df w)))).
         truthy (url_of (snd c)) \<and> snd c \<in> set ?cands"
    unfolding c using 2 [of "found_candidates e (search_keywords_of kws) df"] by auto
  show ?thesis
    using truthy_url_iff [of d] 2 [of cs] 3 6 run_cycle_checked [of e kws df w]
      length_deduplicate [of "found_candidates e (search_keywords_of kws) df"]
    by simp
qed

theorem unaddressed_candidates_dropped_witness:
  "(let r0 = [''title'' \<mapsto> PStr (py ''Nomsiz'')];
        r1 = [''url'' \<mapsto> PStr [], ''title'' \<mapsto> PStr (py ''Grant'')];
        r2 = [''url'' \<mapsto> PStr (py ''u1''), ''title'' \<mapsto> PStr (py ''Subsidiya'')]
    in \<not> truthy (url_of r0) \<and> r0 ''url'' = None
       \<and> \<not> truthy (url_of r1) \<and> r1 ''url'' = Some (PStr [])
       \<and> r2 \<in> set (deduplicate [r0, r1, r2]) \<and> truthy (url_of r2)
       \<and> deduplicate [r0, r1, r2] = [r2])"
proof -
  let ?r0 = "[''title'' \<mapsto> PStr (py ''Nomsiz'')] :: doc"
  let ?r1 = "[''url'' \<mapsto> PStr [], ''title'' \<mapsto> PStr (py ''Grant'')] :: doc"
  let ?r2 = "[''url'' \<mapsto> PStr (py ''u1''), ''title'' \<mapsto> PStr (py ''Subsidiya'')] :: doc"
  have d: "deduplicate [?r0, ?r1, ?r2] = [?r2]"
    by (simp add: deduplicate_def Let_def truthy_def dict_get_def py_def)
  then have m: "?r2 \<in> set (deduplicate [?r0, ?r1, ?r2])" by simp
  have k0: "?r0 ''url'' = None" and k1: "?r1 ''url'' = Some (PStr [])" by simp_all
  note t = unaddressed_candidates_dropped
  from t [of ?r0] k0 have n0: "\<not> truthy (url_of ?r0)" by blast
  from t [of ?r1] k1 have n1: "\<not> truthy (url_of ?r1)" by blast
  from t [of _ "[?r0, ?r1, ?r2]"] m have "truthy (url_of ?r2)" by blast
  with d m k0 k1 n0 n1 show ?thesis unfolding Let_def by blast
qed

subsection \<open>What INGEST counts\<close>

lemma ingest_step_count:
  "snd (ingest_step e i d (w, n)) = (if ingest_counts e i d then n + 1 else n)"
  by (auto simp: ingest_step_def ingest_counts_def Let_def split: option.splits pyval.splits)

lemma ingest_loop_count:
  "snd (ingest_loop e i ds (w, n))
     = n + length (filter (\<lambda>(j, d). ingest_counts e j d) (zip [i ..< i + length ds] ds))"
proof (induction ds arbitrary: i w n)
  case Nil
  then show ?case by simp
next
  case (Cons d ds)
  obtain w' n' where st: "ingest_step e i d (w, n) = (w', n')" by (cases "ingest_step e i d (w, n)")
  have n': "n' = (if ingest_counts e i d then n + 1 else n)"
    using ingest_step_count [of e i d w n] st by simp
  have up: "[i ..< i + length (d # ds)] = i # [Suc i ..< Suc i + length ds]"
    using upt_shift [of i "length ds"] by simp
  show ?case unfolding up using Cons [of "Suc i" w' n'] st n' by simp
qed

lemma run_cycle_ingested:
  "ingested (fst (run_cycle e kws df w))
     = length (filter (\<lambda>(j, d). ingest_counts e j d)
         (zip [0 ..< length (relevant_candidates e
                  (deduplicate (found_candidates e (search_keywords_of kws) df)))]
              (relevant_candidates e
                  (deduplicate (found_candidates e (search_keywords_of kws) df)))))"
  using judge_loop_relevant [of e 0 _ _ "[]"]
  by (simp add: run_cycle_unfold Let_def ingest_loop_count relevant_candidates_def)

text \<open>
  C10. One step of INGEST adds 1 to the count exactly when the scrape returns non-empty
  content and \<open>collection.add\<close>, where it is called, returns. When the scrape returns
  content but chunking yields no chunk or the collection is absent, nothing is written to
  the store, and the count is still incremented for non-empty content. When the scrape
  returns \<open>None\<close> or the empty string the count, the status queue and the store stay as
  they were. \<open>ingested\<close> in the tally of \<open>run_cycle\<close> is the number of relevant candidates
  counted in this way.
\<close>

theorem ingest_count_and_skip:
  "snd (ingest_step e i d (w, n)) = (if ingest_counts e i d then n + 1 else n)
   \<and> (ingest_counts e i d \<longleftrightarrow>
        (\<exists>content. scrape_document e i (url_of d) = Some content \<and> content \<noteq> []
           \<and> (ingest_chunks e i d content \<noteq> [] \<and> has_collection e \<longrightarrow>
                 collection_add e i (store_call d (ingest_chunks e i d content)))))
   \<and> (scrape_document e i (url_of d) = Some content
        \<and> (ingest_chunks e i d content = [] \<or> \<not> has_collection e) \<longrightarrow>
          store (fst (ingest_step e i d (w, n))) = store w
          \<and> (content \<noteq> [] \<longrightarrow> snd (ingest_step e i d (w, n)) = n + 1))
   \<and> (scrape_document e i (url_of d) = None \<or> scrape_document e i (url_of d) = Some [] \<longrightarrow>
        snd (ingest_step e i d (w, n)) = n
        \<and> queue (fst (ingest_step e i d (w, n))) = queue w
        \<and> store (fst (ingest_step e i d (w, n))) = store w)
   \<and> ingested (fst (run_cycle e kws df w0))
       = length (filter (\<lambda>(j, d). ingest_counts e j d)
           (zip [0 ..< length (relevant_candidates e
                    (deduplicate (found_candidates e (search_keywords_of kws) df)))]
                (relevant_candidates e
                    (deduplicate (found_candidates e (search_keywords_of kws) df)))))"
proof -
  have 2: "ingest_counts e i d \<longleftrightarrow>
        (\<exists>content. scrape_document e i (url_of d) = Some content \<and> content \<noteq> []
           \<and> (ingest_chunks e i d content \<noteq> [] \<and> has_collection e \<longrightarrow>
                 collection_add e i (store_call d (ingest_chunks e i d content))))"
    by (auto simp: ingest_counts_def split: option.splits)
  have 3: "store (fst (ingest_step e i d (w, n))) = store w
          \<and> (content \<noteq> [] \<longrightarrow> snd (ingest_step e i d (w, n)) = n + 1)"
    if "scrape_document e i (url_of d) = Some content"
      "ingest_chunks e i d content = [] \<or> \<not> has_collection e"
    using that ingest_step_no_write [OF that, of w n] ingest_step_counts [OF that(1), of w n]
    by auto
  have 4: "snd (ingest_step e i d (w, n)) = n
        \<and> queue (fst (ingest_step e i d (w, n))) = queue w
        \<and> store (fst (ingest_step e i d (w, n))) = store w"
    if "scrape_document e i (url_of d) = None \<or> scrape_document e i (url_of d) = Some []"
    using ingest_step_skips [OF that, of w n] by simp
  show ?thesis
    using ingest_step_count [of e i d w n] 2 3 4 run_cycle_ingested [of e kws df w0]
    by blast
qed

theorem ingest_count_and_skip_witness:
  "(let d = [''url'' \<mapsto> PStr (py ''u1''), ''title'' \<mapsto> PStr (py ''Subsidiya'')];
        e = \<lparr>search_lex_uz = (\<lambda>i k f. [d]), has_collection = False,
             collection_get = (\<lambda>i u. None), llm_answer = (\<lambda>i t. None),
             fetch = (\<lambda>i u. Some (py ''1-modda. Matn'')), collection_add = (\<lambda>i c. False),
             now = (\<lambda>i. py ''2025-01-01'')\<rparr>;
        w = \<lparr>queue = [], store = [], calls = []\<rparr>
    in scrape_document e 0 (url_of d) = Some (py ''1-modda. Matn'')
       \<and> \<not> has_collection e
       \<and> py ''1-modda. Matn'' \<noteq> []
       \<and> store (fst (ingest_step e 0 d (w, 0))) = []
       \<and> snd (ingest_step e 0 d (w, 0)) = 1)"
proof -
  let ?d = "[''url'' \<mapsto> PStr (py ''u1''), ''title'' \<mapsto> PStr (py ''Subsidiya'')] :: doc"
  let ?e = "\<lparr>search_lex_uz = (\<lambda>i k f. [?d]), has_collection = False,
             collection_get = (\<lambda>i u. None), llm_answer = (\<lambda>i t. None),
             fetch = (\<lambda>i u. Some (py ''1-modda. Matn'')), collection_add = (\<lambda>i c. False),
             now = (\<lambda>i. py ''2025-01-01'')\<rparr>"
  let ?w = "\<lparr>queue = [], store = [], calls = []\<rparr>"
  have h1: "scrape_document ?e 0 (url_of ?d) = Some (py ''1-modda. Matn'')"
    by (simp add: scrape_document_def truthy_def dict_get_def py_def)
  have h2: "\<not> has_collection ?e" by simp
  have h3: "py ''1-modda. Matn'' \<noteq> []" by (simp add: py_def)
  from ingest_count_and_skip [of ?e 0 ?d ?w 0 "py ''1-modda. Matn''"] h1 h2 h3
  have "store (fst (ingest_step ?e 0 ?d (?w, 0))) = store ?w
        \<and> snd (ingest_step ?e 0 ?d (?w, 0)) = 0 + 1"
    by blast
  with h1 h2 h3 show ?thesis unfolding Let_def by simp
qed

subsection \<open>Blank and non-blank texts\<close>

lemma strip_empty_iff: "strip s = [] \<longleftrightarrow> (\<forall>c \<in> set s. is_space c)"
proof
  assume "strip s = []"
  then have "\<forall>c \<in> set (dropWhile is_space s). is_space c" by (simp add: strip_def)
  then have "dropWhile is_space s = []"
    using hd_dropWhile [of is_space s] by (cases "dropWhile is_space s") auto
  then show "\<forall>c \<in> set s. is_space c" by simp
next
  assume "\<forall>c \<in> set s. is_space c"
  then show "strip s = []" by (auto simp: strip_def dest: set_dropWhileD)
qed

lemma length_strip: "length (strip s) \<le> length s"
proof -
  have "length (strip s) \<le> length (dropWhile is_space s)"
    using length_dropWhile_le [of is_space "rev (dropWhile is_space s)"] by (simp add: strip_def)
  also have "\<dots> \<le> length s" by (rule length_dropWhile_le)
  finally show ?thesis .
qed

lemma collapse_ws_keeps: "\<not> is_space c \<Longrightarrow> c \<in> set (collapse_ws s) \<longleftrightarrow> c \<in> set s"
proof (induction s rule: collapse_ws.induct)
  case 1
  then show ?case by simp
next
  case (2 x xs)
  show ?case
  proof (cases "is_space x")
    case True
    have "c \<in> set (dropWhile is_space xs) \<longleftrightarrow> c \<in> set xs"
    proof
      assume "c \<in> set (dropWhile is_space xs)" then show "c \<in> set xs" by (rule set_dropWhileD)
    next
      assume "c \<in> set xs"
      then have "c \<in> set (takeWhile is_space xs @ dropWhile is_space xs)" by simp
      then show "c \<in> set (dropWhile is_space xs)"
        using 2(3) by (auto simp del: takeWhile_dropWhile_id dest: set_takeWhileD)
    qed
    with True 2 show ?thesis by (auto simp: is_space_def)
  next
    case False
    with 2 show ?thesis by auto
  qed
qed

lemma length_collapse_ws: "length (collapse_ws s) \<le> length s"
proof (induction s rule: collapse_ws.induct)
  case 1
  then show ?case by simp
next
  case (2 x xs)
  then show ?case
    using length_dropWhile_le [of is_space xs] by (cases "is_space x") auto
qed

lemma collapse_ws_no_newline: "10 \<notin> set (collapse_ws s)"
proof (induction s rule: collapse_ws.induct)
  case 1
  then show ?case by simp
next
  case (2 x xs)
  then show ?case by (cases "is_space x") (auto simp: is_space_def)
qed

lemma clean_text_eq: "clean_text t = strip (collapse_ws t)"
  by (simp add: clean_text_def collapse_nl_id collapse_ws_no_newline)

lemma clean_text_nonblank: "strip t \<noteq> [] \<Longrightarrow> clean_text t \<noteq> []"
  by (auto simp: clean_text_eq strip_empty_iff collapse_ws_keeps)

lemma length_clean_text: "length (clean_text t) \<le> length t"
  using length_strip [of "collapse_ws t"] length_collapse_ws [of t] by (simp add: clean_text_eq)

lemma clean_text_no_newline: "10 \<notin> set (clean_text t)"
proof -
  have "set (strip s) \<subseteq> set s" for s
    by (auto simp: strip_def dest!: set_dropWhileD)
  then show ?thesis using collapse_ws_no_newline [of t] by (auto simp: clean_text_eq)
qed


subsection \<open>Markers and articles\<close>

lemma digit_not_space: "is_digit c \<Longrightarrow> \<not> is_space c"
  unfolding is_digit_def nd_ranges_def is_space_def by (simp; arith)

lemma match_article_head: "match_article (c # cs) = Some m \<Longrightarrow> \<not> is_space c"
proof (cases "is_digit c")
  case True
  then show ?thesis by (rule digit_not_space)
next
  case False
  assume "match_article (c # cs) = Some m"
  with False have "c = 77"
    by (auto simp: match_article_def match_dash_form_def match_word_form_def py_simps
             split: if_splits)
  then show ?thesis by (simp add: is_space_def)
qed

lemma finditer_positions:
  "(p, num) \<in> set (finditer k pos s) \<Longrightarrow>
     pos \<le> p \<and> p < pos + length s \<and> \<not> is_space (s ! (p - pos))"
proof (induction s arbitrary: k pos)
  case Nil
  then show ?case by simp
next
  case (Cons c cs)
  have later: "pos \<le> p \<and> p < pos + length (c # cs) \<and> \<not> is_space ((c # cs) ! (p - pos))"
    if "(p, num) \<in> set (finditer k' (Suc pos) cs)" for k'
  proof -
    from Cons.IH [OF that] have "Suc pos \<le> p" "p < Suc pos + length cs"
      "\<not> is_space (cs ! (p - Suc pos))" by simp_all
    moreover from \<open>Suc pos \<le> p\<close> have "p - pos = Suc (p - Suc pos)" by simp
    ultimately show ?thesis by simp
  qed
  show ?case
  proof (cases "0 < k")
    case True
    with Cons.prems show ?thesis using later by simp
  next
    case False
    show ?thesis
    proof (cases "match_article (c # cs)")
      case None
      with False Cons.prems show ?thesis using later by simp
    next
      case (Some m)
      obtain n len where m: "m = (n, len)" by (cases m)
      from Some have "\<not> is_space c" by (rule match_article_head)
      with False Some m Cons.prems show ?thesis using later by auto
    qed
  qed
qed

lemma finditer_increasing: "sorted_wrt (<) (map fst (finditer k pos s))"
proof (induction s arbitrary: k pos)
  case Nil
  then show ?case by simp
next
  case (Cons c cs)
  have "\<forall>q \<in> set (map fst (finditer k' (Suc pos) cs)). pos < q" for k'
    using finditer_positions [of _ _ k' "Suc pos" cs] by fastforce
  with Cons show ?case by (auto split: option.splits)
qed

lemma strip_slice_nonempty:
  assumes "start < stop" "start < length t" "\<not> is_space (t ! start)"
  shows "strip (take (stop - start) (drop start t)) \<noteq> []"
proof -
  from assms(1,2) have "take (stop - start) (drop start t) \<noteq> []" by simp
  moreover from assms(1,2) have "hd (take (stop - start) (drop start t)) = t ! start"
    by (simp add: hd_drop_conv_nth)
  ultimately have "t ! start \<in> set (take (stop - start) (drop start t))"
    by (metis hd_in_set)
  with assms(3) show ?thesis by (auto simp: strip_empty_iff)
qed

lemma articles_loop_all:
  assumes "sorted_wrt (<) (map fst ms)"
    and "\<forall>(p, num) \<in> set ms. p < length t \<and> \<not> is_space (t ! p)"
  shows "map fst (articles_loop t ms) = map (\<lambda>(p, num). num @ py ''-modda'') ms
         \<and> (\<forall>a \<in> set (articles_loop t ms). length (snd a) \<le> length t)"
  using assms
proof (induction ms)
  case Nil
  then show ?case by simp
next
  case (Cons m ms)
  obtain start num where m: "m = (start, num)" by (cases m)
  let ?stop = "case ms of [] \<Rightarrow> length t | (nxt, _) # _ \<Rightarrow> nxt"
  from Cons.prems m have st: "start < length t" "\<not> is_space (t ! start)" by auto
  have "start < ?stop"
    using Cons.prems(1) m st(1) by (cases ms) auto
  from strip_slice_nonempty [OF this st]
  have ne: "strip (take (?stop - start) (drop start t)) \<noteq> []" .
  have "length (take (?stop - start) (drop start t)) \<le> length t" by simp
  with length_strip [of "take (?stop - start) (drop start t)"]
  have len: "length (strip (take (?stop - start) (drop start t))) \<le> length t"
    by (rule order_trans)
  from Cons have IH: "map fst (articles_loop t ms) = map (\<lambda>(p, num). num @ py ''-modda'') ms
         \<and> (\<forall>a \<in> set (articles_loop t ms). length (snd a) \<le> length t)" by simp
  show ?case unfolding m using ne len IH by (simp add: Let_def)
qed

lemma finditer_articles:
  "map fst (articles_loop t (finditer 0 0 t))
     = map (\<lambda>(p, num). num @ py ''-modda'') (finditer 0 0 t)
   \<and> (\<forall>a \<in> set (articles_loop t (finditer 0 0 t)). length (snd a) \<le> length t)"
  by (rule articles_loop_all) (use finditer_increasing finditer_positions [of _ _ 0 0 t] in auto)

lemma split_by_articles_nonempty: "split_by_articles t \<noteq> []"
proof (cases "finditer 0 0 t")
  case Nil
  then show ?thesis by (simp add: split_by_articles_def)
next
  case (Cons m ms)
  obtain first num where m: "m = (first, num)" by (cases m)
  from finditer_articles [of t] Cons
  have "length (map fst (articles_loop t (m # ms))) = length (m # ms)" by simp
  then have "articles_loop t (m # ms) \<noteq> []" by auto
  with Cons m show ?thesis by (simp add: split_by_articles_def Let_def del: articles_loop.simps)
qed

lemma split_by_articles_labels:
  "\<exists>pre. (pre = [] \<or> pre = [py ''preamble'']) \<and>
     map fst (split_by_articles t)
       = (if finditer 0 0 t = [] then [py ''general'']
          else pre @ map (\<lambda>(p, num). num @ py ''-modda'') (finditer 0 0 t))"
proof (cases "finditer 0 0 t")
  case Nil
  then show ?thesis by (intro exI [of _ "[]"]) (simp add: split_by_articles_def)
next
  case (Cons m ms)
  obtain first num where m: "m = (first, num)" by (cases m)
  from finditer_articles [of t] Cons
  have "map fst (articles_loop t (m # ms)) = map (\<lambda>(p, num). num @ py ''-modda'') (m # ms)"
    by simp
  with Cons m show ?thesis
    by (auto simp: split_by_articles_def Let_def simp del: articles_loop.simps)
qed

lemma split_by_articles_short:
  assumes "length t \<le> MIN_CHUNK_SIZE"
  shows "length (split_by_articles t) = max 1 (length (finditer 0 0 t))
         \<and> (\<forall>a \<in> set (split_by_articles t). length (snd a) \<le> length t)"
proof (cases "finditer 0 0 t")
  case Nil
  then show ?thesis by (simp add: split_by_articles_def)
next
  case (Cons m ms)
  obtain first num where m: "m = (first, num)" by (cases m)
  have "first < length t" using finditer_positions [of first num 0 0 t] Cons m by simp
  with assms have no_pre: "\<not> MIN_CHUNK_SIZE < first" by simp
  from finditer_articles [of t] Cons
  have a: "map fst (articles_loop t (m # ms)) = map (\<lambda>(p, num). num @ py ''-modda'') (m # ms)"
    and b: "\<forall>a \<in> set (articles_loop t (m # ms)). length (snd a) \<le> length t"
    by simp_all
  have "length (articles_loop t (m # ms)) = length (m # ms)"
    using arg_cong [OF a, of length] by (simp del: articles_loop.simps)
  with Cons m no_pre b show ?thesis
    by (simp add: split_by_articles_def Let_def del: articles_loop.simps)
qed

subsection \<open>The chunk loops\<close>

lemma hard_split_nonempty: "t \<noteq> [] \<Longrightarrow> hard_split t \<noteq> []"
proof -
  assume "t \<noteq> []"
  then have "TARGET_CHUNK_SIZE \<le> length t + TARGET_CHUNK_SIZE - 1"
    by (cases t) simp_all
  then have "0 < (length t + TARGET_CHUNK_SIZE - 1) div TARGET_CHUNK_SIZE"
    by (simp add: TARGET_CHUNK_SIZE_def div_greater_zero_iff)
  then show ?thesis by (simp add: hard_split_def)
qed

lemma try_separators_nonempty: "t \<noteq> [] \<Longrightarrow> try_separators t seps \<noteq> []"
  by (induction seps) (simp_all add: hard_split_nonempty Let_def)

lemma recursive_split_nonempty: "t \<noteq> [] \<Longrightarrow> recursive_split t \<noteq> []"
  by (simp add: recursive_split_def try_separators_nonempty)

lemma merge_paragraphs_nonempty: "cur \<noteq> [] \<or> ps \<noteq> [] \<Longrightarrow> merge_paragraphs cur n ps \<noteq> []"
  by (induction ps arbitrary: cur n) (auto simp: flush_def)

lemma split_loop_nonempty: "split_loop sep k cur s \<noteq> []"
  by (induction s arbitrary: k cur) auto

lemma split_by_sections_nonempty: "split_by_sections t \<noteq> []"
proof -
  have "split [10, 10] t \<noteq> []" by (simp add: split_def split_loop_nonempty)
  then show ?thesis by (simp add: split_by_sections_def Let_def merge_paragraphs_nonempty)
qed



lemma sub_chunks_loop_props:
  "map index (sub_chunks_loop base d num i subs) = [i ..< i + length subs]
   \<and> length (sub_chunks_loop base d num i subs) = length subs
   \<and> (\<forall>c \<in> set (sub_chunks_loop base d num i subs).
         article c = Some num \<and> chunk_type c = ''sub_section'')"
proof (induction subs arbitrary: i)
  case Nil
  then show ?case by simp
next
  case (Cons s subs)
  have "[i ..< i + length (s # subs)] = i # [Suc i ..< Suc i + length subs]"
    using upt_shift [of i "length subs"] by simp
  with Cons [of "Suc i"] show ?case by (simp add: mk_chunk_def del: upt_Suc)
qed

lemma map_const_replicate: "\<forall>x \<in> set xs. f x = c \<Longrightarrow> map f xs = replicate (length xs) c"
  by (induction xs) auto

lemma upt_split: "[i ..< i + (a + b)] = [i ..< i + a] @ [i + a ..< i + a + b]"
  by (metis add.assoc le_add1 upt_add_eq_append)

lemma sections_loop_props:
  "map index (sections_loop base d num i secs)
     = [i ..< i + length (sections_loop base d num i secs)]
   \<and> (secs \<noteq> [] \<longrightarrow> sections_loop base d num i secs \<noteq> [])
   \<and> (\<forall>c \<in> set (sections_loop base d num i secs). article c = Some num)"
proof (induction secs arbitrary: i)
  case Nil
  then show ?case by simp
next
  case (Cons s secs)
  let ?new = "if length s \<le> TARGET_CHUNK_SIZE
              then [mk_chunk base d num ''section'' s i]
              else sub_chunks_loop base d num i (recursive_split s)"
  have n1: "map index ?new = [i ..< i + length ?new]"
    using sub_chunks_loop_props [of base d num i "recursive_split s"] by (simp add: mk_chunk_def)
  have n2: "?new \<noteq> []"
  proof (cases "length s \<le> TARGET_CHUNK_SIZE")
    case True
    then show ?thesis by simp
  next
    case False
    then have "s \<noteq> []" by auto
    then have "recursive_split s \<noteq> []" by (rule recursive_split_nonempty)
    moreover have "length (sub_chunks_loop base d num i (recursive_split s))
                   = length (recursive_split s)"
      using sub_chunks_loop_props [of base d num i "recursive_split s"] by simp
    ultimately show ?thesis using False by auto
  qed
  have n3: "\<forall>c \<in> set ?new. article c = Some num"
    using sub_chunks_loop_props [of base d num i "recursive_split s"] by (simp add: mk_chunk_def)
  have eq: "sections_loop base d num i (s # secs)
            = ?new @ sections_loop base d num (i + length ?new) secs"
    by (simp add: Let_def)
  from Cons [of "i + length ?new"]
  have IH: "map index (sections_loop base d num (i + length ?new) secs)
     = [i + length ?new ..< i + length ?new + length (sections_loop base d num (i + length ?new) secs)]"
    and IH3: "\<forall>c \<in> set (sections_loop base d num (i + length ?new) secs). article c = Some num"
    by simp_all
  have "map index (sections_loop base d num i (s # secs))
        = [i ..< i + length (sections_loop base d num i (s # secs))]"
    unfolding eq using n1 IH upt_split [of i "length ?new"] by simp
  moreover have "sections_loop base d num i (s # secs) \<noteq> []" unfolding eq using n2 by simp
  moreover have "\<forall>c \<in> set (sections_loop base d num i (s # secs)). article c = Some num"
    unfolding eq using n3 IH3 by auto
  ultimately show ?case by blast
qed



lemma chunks_loop_props:
  "map index (chunks_loop base d i arts) = [i ..< i + length (chunks_loop base d i arts)]
   \<and> (arts \<noteq> [] \<longrightarrow> chunks_loop base d i arts \<noteq> [])
   \<and> (\<exists>ks. length ks = length arts \<and> (\<forall>k \<in> set ks. 0 < k)
          \<and> map article (chunks_loop base d i arts)
              = concat (map (\<lambda>(k, a). replicate k (Some (fst a))) (zip ks arts)))"
proof (induction arts arbitrary: i)
  case Nil
  then show ?case by simp
next
  case (Cons a arts)
  obtain num atext where a: "a = (num, atext)" by (cases a)
  let ?new = "if length atext \<le> TARGET_CHUNK_SIZE
              then [mk_chunk base d num ''full_article'' atext i]
              else sections_loop base d num i (split_by_sections atext)"
  have sl: "map index (sections_loop base d num i (split_by_sections atext))
     = [i ..< i + length (sections_loop base d num i (split_by_sections atext))]"
    "sections_loop base d num i (split_by_sections atext) \<noteq> []"
    "\<forall>c \<in> set (sections_loop base d num i (split_by_sections atext)). article c = Some num"
    using sections_loop_props [of base d num i "split_by_sections atext"]
      split_by_sections_nonempty [of atext] by simp_all
  have n1: "map index ?new = [i ..< i + length ?new]" using sl(1) by (simp add: mk_chunk_def)
  have n2: "?new \<noteq> []" using sl(2) by simp
  have n3: "\<forall>c \<in> set ?new. article c = Some num" using sl(3) by (simp add: mk_chunk_def)
  then have n3': "map article ?new = replicate (length ?new) (Some num)"
    by (rule map_const_replicate)
  have eq: "chunks_loop base d i (a # arts) = ?new @ chunks_loop base d (i + length ?new) arts"
    by (simp add: a Let_def)
  from Cons [of "i + length ?new"] obtain ks
    where IH: "map index (chunks_loop base d (i + length ?new) arts)
       = [i + length ?new ..< i + length ?new + length (chunks_loop base d (i + length ?new) arts)]"
      and ks: "length ks = length arts" "\<forall>k \<in> set ks. 0 < k"
        "map article (chunks_loop base d (i + length ?new) arts)
              = concat (map (\<lambda>(k, a). replicate k (Some (fst a))) (zip ks arts))"
    by blast
  have "map index (chunks_loop base d i (a # arts))
        = [i ..< i + length (chunks_loop base d i (a # arts))]"
    unfolding eq using n1 IH upt_split [of i "length ?new"] by simp
  moreover have "chunks_loop base d i (a # arts) \<noteq> []" unfolding eq using n2 by simp
  moreover have "length (length ?new # ks) = length (a # arts)
      \<and> (\<forall>k \<in> set (length ?new # ks). 0 < k)
      \<and> map article (chunks_loop base d i (a # arts))
          = concat (map (\<lambda>(k, a). replicate k (Some (fst a))) (zip (length ?new # ks) (a # arts)))"
    unfolding eq using ks n2 n3' by (simp add: a)
  ultimately show ?case by blast
qed

lemma chunks_loop_short:
  assumes "\<forall>a \<in> set arts. length (snd a) \<le> TARGET_CHUNK_SIZE"
  shows "length (chunks_loop base d i arts) = length arts
         \<and> (\<forall>c \<in> set (chunks_loop base d i arts). chunk_type c = ''full_article'')"
  using assms
proof (induction arts arbitrary: i)
  case Nil
  then show ?case by simp
next
  case (Cons a arts)
  obtain num atext where a: "a = (num, atext)" by (cases a)
  with Cons.prems have "length atext \<le> TARGET_CHUNK_SIZE" by simp
  with Cons.IH [of "i + 1"] Cons.prems show ?case by (simp add: a mk_chunk_def)
qed

subsection \<open>Non-empty output, contiguous indices, article order\<close>

lemma pre_overlap_nonblank:
  "strip t \<noteq> [] \<Longrightarrow>
   pre_overlap_chunks t d ti m
     = chunks_loop ((case m of None \<Rightarrow> Map.empty | Some m' \<Rightarrow> m')
                      (py ''document_id'' \<mapsto> d, py ''title'' \<mapsto> ti))
         d 0 (split_by_articles (clean_text t))"
  by (auto simp: pre_overlap_chunks_def Let_def strip_def)

lemma pre_overlap_blank: "t = [] \<or> strip t = [] \<Longrightarrow> pre_overlap_chunks t d ti m = []"
  by (auto simp: pre_overlap_chunks_def)

lemma all_image_eq:
  assumes "f ` A = f ` B" "\<forall>x \<in> B. f x = c"
  shows "\<forall>x \<in> A. f x = c"
proof
  fix x assume "x \<in> A"
  then have "f x \<in> f ` B" using assms(1) by auto
  then obtain y where "y \<in> B" "f x = f y" by auto
  with assms(2) show "f x = c" by simp
qed

lemma short_document_chunks:
  assumes "strip t \<noteq> []" "length t < MIN_CHUNK_SIZE"
  shows "length (chunk_document t d ti m) = max 1 (length (finditer 0 0 (clean_text t)))"
    and "\<forall>c \<in> set (chunk_document t d ti m). chunk_type c = ''full_article''"
proof -
  let ?ct = "clean_text t"
  let ?base = "(case m of None \<Rightarrow> Map.empty | Some m' \<Rightarrow> m')
                 (py ''document_id'' \<mapsto> d, py ''title'' \<mapsto> ti)"
  from assms(2) length_clean_text [of t] have le: "length ?ct \<le> MIN_CHUNK_SIZE" by simp
  from split_by_articles_short [OF le]
  have n: "length (split_by_articles ?ct) = max 1 (length (finditer 0 0 ?ct))"
    and s: "\<forall>a \<in> set (split_by_articles ?ct). length (snd a) \<le> length ?ct" by simp_all
  from s le have "\<forall>a \<in> set (split_by_articles ?ct). length (snd a) \<le> TARGET_CHUNK_SIZE"
    by (auto simp: MIN_CHUNK_SIZE_def TARGET_CHUNK_SIZE_def)
  from chunks_loop_short [OF this, of ?base d 0]
  have l: "length (chunks_loop ?base d 0 (split_by_articles ?ct)) = length (split_by_articles ?ct)"
    and ty: "\<forall>c \<in> set (chunks_loop ?base d 0 (split_by_articles ?ct)).
               chunk_type c = ''full_article''" by simp_all
  show "length (chunk_document t d ti m) = max 1 (length (finditer 0 0 ?ct))"
    using l n by (simp add: chunk_document_def length_add_overlap pre_overlap_nonblank [OF assms(1)])
  have "set (map chunk_type (chunk_document t d ti m))
        = set (map chunk_type (chunks_loop ?base d 0 (split_by_articles ?ct)))"
    by (simp only: chunk_document_def add_overlap_fields pre_overlap_nonblank [OF assms(1)])
  then have "chunk_type ` set (chunk_document t d ti m)
        = chunk_type ` set (chunks_loop ?base d 0 (split_by_articles ?ct))"
    by (simp only: set_map)
  then show "\<forall>c \<in> set (chunk_document t d ti m). chunk_type c = ''full_article''"
    using ty by (rule all_image_eq)
qed

text \<open>
  C2, as the code has it. For a text that is not blank \<open>chunk_document\<close> returns at least
  one chunk; the indices are 0, 1, 2, ... in output order; the chunks come in groups, one
  non-empty group per article of \<open>_split_by_articles\<close> and in the order of the articles,
  which are the markers found from left to right (after an optional preamble), or the one
  article \<open>general\<close>. For an empty or blank text the result is empty. A non-blank document
  of fewer than \<open>MIN_CHUNK_SIZE\<close> (200) characters yields one \<open>full_article\<close> chunk per
  marker found in its normalised text, and one chunk when there is no marker.
\<close>

theorem chunk_document_nonblank:
  "(strip t \<noteq> [] \<longrightarrow>
      chunk_document t d ti m \<noteq> []
      \<and> map index (chunk_document t d ti m) = [0 ..< length (chunk_document t d ti m)]
      \<and> (\<exists>ks. length ks = length (split_by_articles (clean_text t))
             \<and> (\<forall>k \<in> set ks. 0 < k)
             \<and> map article (chunk_document t d ti m)
                 = concat (map (\<lambda>(k, a). replicate k (Some (fst a)))
                               (zip ks (split_by_articles (clean_text t)))))
      \<and> (\<exists>pre. (pre = [] \<or> pre = [py ''preamble''])
             \<and> map fst (split_by_articles (clean_text t))
                 = (if finditer 0 0 (clean_text t) = [] then [py ''general'']
                    else pre @ map (\<lambda>(p, num). num @ py ''-modda'')
                                   (finditer 0 0 (clean_text t))))
      \<and> sorted_wrt (<) (map fst (finditer 0 0 (clean_text t))))
   \<and> (t = [] \<or> strip t = [] \<longrightarrow> chunk_document t d ti m = [])
   \<and> (strip t \<noteq> [] \<and> length t < MIN_CHUNK_SIZE \<longrightarrow>
        length (chunk_document t d ti m) = max 1 (length (finditer 0 0 (clean_text t)))
        \<and> (\<forall>c \<in> set (chunk_document t d ti m). chunk_type c = ''full_article''))"
proof -
  let ?base = "(case m of None \<Rightarrow> Map.empty | Some m' \<Rightarrow> m')
                 (py ''document_id'' \<mapsto> d, py ''title'' \<mapsto> ti)"
  let ?arts = "split_by_articles (clean_text t)"
  have a: "chunk_document t d ti m \<noteq> []
      \<and> map index (chunk_document t d ti m) = [0 ..< length (chunk_document t d ti m)]
      \<and> (\<exists>ks. length ks = length ?arts \<and> (\<forall>k \<in> set ks. 0 < k)
             \<and> map article (chunk_document t d ti m)
                 = concat (map (\<lambda>(k, a). replicate k (Some (fst a))) (zip ks ?arts)))"
    if nb: "strip t \<noteq> []"
  proof -
    have cd: "chunk_document t d ti m = add_overlap (chunks_loop ?base d 0 ?arts)"
      by (simp add: chunk_document_def pre_overlap_nonblank [OF nb])
    from chunks_loop_props [of ?base d 0 ?arts] split_by_articles_nonempty [of "clean_text t"]
    obtain ks where p: "map index (chunks_loop ?base d 0 ?arts)
          = [0 ..< length (chunks_loop ?base d 0 ?arts)]"
        "chunks_loop ?base d 0 ?arts \<noteq> []"
        "length ks = length ?arts" "\<forall>k \<in> set ks. 0 < k"
        "map article (chunks_loop ?base d 0 ?arts)
              = concat (map (\<lambda>(k, a). replicate k (Some (fst a))) (zip ks ?arts))"
      by auto
    have "length (chunk_document t d ti m) = length (chunks_loop ?base d 0 ?arts)"
      by (simp add: cd length_add_overlap)
    with p show ?thesis unfolding cd
      by (metis add_overlap_fields(1,3) length_0_conv)
  qed
  have b: "chunk_document t d ti m = []" if "t = [] \<or> strip t = []"
    using pre_overlap_blank [OF that] by (simp add: chunk_document_def add_overlap_def)
  show ?thesis
    using a b short_document_chunks [of t d ti m] split_by_articles_labels [of "clean_text t"]
      finditer_increasing [of 0 0 "clean_text t"]
    by blast
qed


theorem chunk_document_nonblank_witness:
  "strip (py ''1-modda. Short text.'') \<noteq> []
   \<and> length (py ''1-modda. Short text.'') < MIN_CHUNK_SIZE
   \<and> chunk_document (py ''1-modda. Short text.'') (PStr (py ''TEST-1'')) (PStr []) None \<noteq> []
   \<and> length (chunk_document (py ''1-modda. Short text.'') (PStr (py ''TEST-1'')) (PStr []) None) = 1"
proof -
  have h1: "strip (py ''1-modda. Short text.'') \<noteq> []" by (simp add: strip_def char_eval)
  have h2: "length (py ''1-modda. Short text.'') < MIN_CHUNK_SIZE"
    by (simp add: py_def MIN_CHUNK_SIZE_def)
  have c: "clean_text (py ''1-modda. Short text.'') = py ''1-modda. Short text.''"
    by (simp add: clean_text_def strip_def char_eval)
  have f: "finditer 0 0 (py ''1-modda. Short text.'') = [(0, py ''1'')]"
    by (simp add: scan_eval char_eval)
  from chunk_document_nonblank [of "py ''1-modda. Short text.''" "PStr (py ''TEST-1'')" "PStr []" None]
    h1 h2
  have "chunk_document (py ''1-modda. Short text.'') (PStr (py ''TEST-1'')) (PStr []) None \<noteq> []
    \<and> length (chunk_document (py ''1-modda. Short text.'') (PStr (py ''TEST-1'')) (PStr []) None)
        = max 1 (length (finditer 0 0 (clean_text (py ''1-modda. Short text.''))))"
    by blast
  then show ?thesis using h1 h2 unfolding c f by simp
qed

text \<open>
  C2 as stated fails in its last part: \<open>1-modda. A 2-modda. B\<close> has 21 characters and two
  article markers, and \<open>chunk_document\<close> returns two chunks.
\<close>

theorem short_document_two_chunks:
  "length (py ''1-modda. A 2-modda. B'') < MIN_CHUNK_SIZE
   \<and> length (chunk_document (py ''1-modda. A 2-modda. B'') (PStr (py ''PQ-1'')) (PStr []) None) = 2"
proof -
  have h1: "strip (py ''1-modda. A 2-modda. B'') \<noteq> []" by (simp add: strip_def char_eval)
  have h2: "length (py ''1-modda. A 2-modda. B'') < MIN_CHUNK_SIZE"
    by (simp add: py_def MIN_CHUNK_SIZE_def)
  have c: "clean_text (py ''1-modda. A 2-modda. B'') = py ''1-modda. A 2-modda. B''"
    by (simp add: clean_text_def strip_def char_eval)
  have f: "finditer 0 0 (py ''1-modda. A 2-modda. B'') = [(0, py ''1''), (11, py ''2'')]"
    by (simp add: scan_eval char_eval)
  from short_document_chunks(1) [OF h1 h2, of "PStr (py ''PQ-1'')" "PStr []" None] h2
  show ?thesis unfolding c f by simp
qed

subsection \<open>The tag \<open>section\<close> is unreachable\<close>

text \<open>
  Behind C4: the normalised text has no newline, hence no article has one, and
  \<open>_split_by_sections\<close> returns every long article whole. No chunk that \<open>chunk_document\<close>
  returns is tagged \<open>section\<close>, for any input.
\<close>

lemma set_strip: "set (strip s) \<subseteq> set s"
  by (auto simp: strip_def dest!: set_dropWhileD)

lemma articles_loop_chars: "a \<in> set (articles_loop t ms) \<Longrightarrow> set (snd a) \<subseteq> set t"
proof (induction ms)
  case Nil
  then show ?case by simp
next
  case (Cons m ms)
  obtain start num where m: "m = (start, num)" by (cases m)
  have sub: "set (strip (take n (drop start t))) \<subseteq> set t" for n
    using set_strip [of "take n (drop start t)"] set_take_subset [of n "drop start t"]
      set_drop_subset [of start t] by blast
  let ?stop = "case ms of [] \<Rightarrow> length t | (nxt, _) # _ \<Rightarrow> nxt"
  from Cons.prems m
  have "a \<in> set (articles_loop t ms) \<or> snd a = strip (take (?stop - start) (drop start t))"
    by (auto simp: Let_def split: if_splits)
  then show ?case using Cons.IH sub [of "?stop - start"] by auto
qed

lemma split_by_articles_chars: "a \<in> set (split_by_articles t) \<Longrightarrow> set (snd a) \<subseteq> set t"
proof (cases "finditer 0 0 t")
  case Nil
  assume "a \<in> set (split_by_articles t)"
  with Nil show ?thesis by (simp add: split_by_articles_def)
next
  case (Cons m ms)
  obtain first num where m: "m = (first, num)" by (cases m)
  assume "a \<in> set (split_by_articles t)"
  then have "a \<in> set (articles_loop t (m # ms)) \<or> snd a = strip (take first t)"
    using Cons m by (auto simp: split_by_articles_def Let_def simp del: articles_loop.simps split: if_splits)
  then show ?thesis
  proof
    assume "a \<in> set (articles_loop t (m # ms))"
    then show ?thesis by (rule articles_loop_chars)
  next
    assume "snd a = strip (take first t)"
    then show ?thesis using set_strip [of "take first t"] set_take_subset [of first t] by auto
  qed
qed

lemma chunks_loop_no_section:
  "\<forall>a \<in> set arts. 10 \<notin> set (snd a) \<Longrightarrow>
   \<forall>c \<in> set (chunks_loop base d i arts). chunk_type c \<noteq> ''section''"
proof (induction arts arbitrary: i)
  case Nil
  then show ?case by simp
next
  case (Cons a arts)
  obtain num atext where a: "a = (num, atext)" by (cases a)
  with Cons.prems have nl: "10 \<notin> set atext" by simp
  let ?new = "if length atext \<le> TARGET_CHUNK_SIZE
              then [mk_chunk base d num ''full_article'' atext i]
              else sections_loop base d num i (split_by_sections atext)"
  have "\<forall>c \<in> set ?new. chunk_type c \<noteq> ''section''"
    using sub_chunks_loop_props [of base d num i "recursive_split atext"]
    by (auto simp: split_by_sections_no_newline [OF nl] mk_chunk_def Let_def)
  moreover have "chunks_loop base d i (a # arts)
            = ?new @ chunks_loop base d (i + length ?new) arts"
    by (simp add: a Let_def)
  ultimately show ?case using Cons.IH [of "i + length ?new"] Cons.prems by auto
qed

lemma section_tag_unreachable:
  "\<forall>c \<in> set (chunk_document t d ti m). chunk_type c \<noteq> ''section''"
proof (cases "strip t = []")
  case True
  then have "pre_overlap_chunks t d ti m = []" by (simp add: pre_overlap_blank)
  then show ?thesis by (simp add: chunk_document_def add_overlap_def)
next
  case False
  let ?base = "(case m of None \<Rightarrow> Map.empty | Some m' \<Rightarrow> m')
                 (py ''document_id'' \<mapsto> d, py ''title'' \<mapsto> ti)"
  have "\<forall>a \<in> set (split_by_articles (clean_text t)). 10 \<notin> set (snd a)"
    using split_by_articles_chars [of _ "clean_text t"] clean_text_no_newline [of t] by blast
  from chunks_loop_no_section [OF this, of ?base d 0]
  have pre: "\<forall>c \<in> set (pre_overlap_chunks t d ti m). chunk_type c \<noteq> ''section''"
    by (simp add: pre_overlap_nonblank [OF False])
  have "chunk_type ` set (chunk_document t d ti m) = chunk_type ` set (pre_overlap_chunks t d ti m)"
    using arg_cong [OF add_overlap_fields(2) [of "pre_overlap_chunks t d ti m"], of set]
    by (simp only: chunk_document_def set_map)
  then show ?thesis using pre by (metis (no_types, lifting) image_iff)
qed

end
